theory Spec2Isabelle
  imports Main
begin

section \<open>StateManager: the keyed state store\<close>

subsection \<open>Values, objects and the prototype of the store\<close>

text \<open>
  Keys are strings, as at every call of the script. A value is \<open>undefined\<close>, \<open>null\<close>, a
  primitive or a reference to an object. Three kinds of objects are told apart:
  \<open>Object.prototype\<close> itself, the functions that \<open>Object.prototype\<close> holds under its
  method names, and every other object.

  \<open>this.state\<close> is an object literal: it has own properties and a prototype, which is
  \<open>Object.prototype\<close> from the constructor on. A read \<open>this.state[key]\<close> of a key that is not
  an own property goes to the prototype chain, and so does a write
  \<open>this.state[key] = value\<close>: it creates an own property unless the chain holds an
  accessor or a read-only property under that key. \<open>Object.prototype\<close> is taken as the
  language defines it, with nothing added or frozen: it holds the methods
  \<open>object_prototype_names\<close>, all writable, and the accessor \<open>__proto__\<close>, whose getter returns
  the prototype of the store and whose setter re-parents the store when it is given an
  object or \<open>null\<close> and ignores every other value.
\<close>

type_synonym key = string
type_synonym callback = nat

datatype obj = ObjectPrototype | Member string | Ref nat

datatype 'v jsval = Undefined | Null | Prim 'v | Obj obj

datatype thrown = ReadOnly | CyclicProto | Raised nat

text \<open>
  What a prototype chain holds for a key: nothing, a data property (writable or not,
  and its value), the accessor \<open>__proto__\<close> of \<open>Object.prototype\<close>, or another accessor,
  given by what its getter yields and by what its setter throws (a missing setter throws
  \<open>ReadOnly\<close>, as the class body is strict code).
\<close>

datatype 'v inherited =
    Absent
  | Data bool "'v jsval"
  | ProtoAccessor
  | Accessor "thrown + 'v jsval" "thrown option"

text \<open>
  A callback is a closure; the store compares closures by identity and calls them. What
  a callback does when it is called with \<open>(newValue, oldValue)\<close> is its \<open>behaviour\<close>: it may
  unsubscribe callbacks and it may end by throwing. A callback that subscribes or writes
  to the store while it is being notified is not modelled.

  The \<open>host\<close> is what the page brings along: for an object other than \<open>Object.prototype\<close>,
  what its chain holds for a key (\<open>inherit\<close>) and whether the store lies on its chain
  (\<open>cyclic\<close>), and the behaviour of each callback (\<open>behaviour_of\<close>). Such an object is taken to be
  passive: its accessors do not change the store.
\<close>

record behaviour =
  unsubscribes :: "(key \<times> callback) list"
  throws :: "nat option"

record 'v host =
  inherit :: "obj \<Rightarrow> key \<Rightarrow> 'v inherited"
  cyclic :: "obj \<Rightarrow> bool"
  behaviour_of :: "callback \<Rightarrow> 'v jsval \<Rightarrow> 'v jsval \<Rightarrow> behaviour"

definition object_prototype_names :: "string list" where
  "object_prototype_names =
     [''constructor'', ''hasOwnProperty'', ''isPrototypeOf'', ''propertyIsEnumerable'',
      ''toLocaleString'', ''toString'', ''valueOf'', ''__defineGetter__'', ''__defineSetter__'',
      ''__lookupGetter__'', ''__lookupSetter__'']"

fun inherited_from :: "'v host \<Rightarrow> obj option \<Rightarrow> key \<Rightarrow> 'v inherited" where
  "inherited_from h None k = Absent"
| "inherited_from h (Some ObjectPrototype) k =
     (if k = ''__proto__'' then ProtoAccessor
      else if k \<in> set object_prototype_names then Data True (Obj (Member k))
      else Absent)"
| "inherited_from h (Some (Member n)) k = inherit h (Member n) k"
| "inherited_from h (Some (Ref n)) k = inherit h (Ref n) k"

subsection \<open>The store\<close>

text \<open>
  \<open>state\<close> holds the own properties of \<open>this.state\<close> and \<open>state_proto\<close> its prototype (\<open>None\<close> is
  \<open>null\<close>). \<open>this.listeners\<close> is a \<open>Map\<close> from keys to \<open>Set\<close>s of callbacks. A JavaScript \<open>Set\<close>
  iterates in insertion order and holds no element twice: it is a list without
  duplicates, \<open>add\<close> appends an absent element and \<open>delete\<close> takes the element out.
  \<open>calls\<close> is the trace of the invocations: an entry \<open>(callback, newValue, oldValue)\<close> is
  appended when the callback is called.
\<close>

record 'v state_manager =
  state :: "key \<rightharpoonup> 'v jsval"
  state_proto :: "obj option"
  listeners :: "key \<rightharpoonup> callback list"
  calls :: "(callback \<times> 'v jsval \<times> 'v jsval) list"

definition set_add :: "'a \<Rightarrow> 'a list \<Rightarrow> 'a list" where
  "set_add x xs = (if x \<in> set xs then xs else xs @ [x])"

definition set_delete :: "'a \<Rightarrow> 'a list \<Rightarrow> 'a list" where
  "set_delete x xs = removeAll x xs"

definition getState :: "'v host \<Rightarrow> key \<Rightarrow> 'v state_manager \<Rightarrow> thrown + 'v jsval" where
  "getState h k s =
     (case state s k of
        Some v \<Rightarrow> Inr v
      | None \<Rightarrow>
          (case inherited_from h (state_proto s) k of
             Absent \<Rightarrow> Inr Undefined
           | Data w v \<Rightarrow> Inr v
           | ProtoAccessor \<Rightarrow> Inr (case state_proto s of None \<Rightarrow> Null | Some ob \<Rightarrow> Obj ob)
           | Accessor g st \<Rightarrow> g))"

text \<open>The assignment \<open>this.state[key] = value\<close>.\<close>

definition assign :: "'v host \<Rightarrow> key \<Rightarrow> 'v jsval \<Rightarrow> 'v state_manager \<Rightarrow> thrown + 'v state_manager" where
  "assign h k v s =
     (case state s k of
        Some _ \<Rightarrow> Inr (s\<lparr>state := (state s)(k \<mapsto> v)\<rparr>)
      | None \<Rightarrow>
          (case inherited_from h (state_proto s) k of
             Absent \<Rightarrow> Inr (s\<lparr>state := (state s)(k \<mapsto> v)\<rparr>)
           | Data w _ \<Rightarrow> if w then Inr (s\<lparr>state := (state s)(k \<mapsto> v)\<rparr>) else Inl ReadOnly
           | ProtoAccessor \<Rightarrow>
               (case v of
                  Null \<Rightarrow> Inr (s\<lparr>state_proto := None\<rparr>)
                | Obj ob \<Rightarrow>
                    if ob \<noteq> ObjectPrototype \<and> cyclic h ob then Inl CyclicProto
                    else Inr (s\<lparr>state_proto := Some ob\<rparr>)
                | _ \<Rightarrow> Inr s)
           | Accessor g st \<Rightarrow> (case st of None \<Rightarrow> Inr s | Some e \<Rightarrow> Inl e)))"

definition subscribe :: "key \<Rightarrow> callback \<Rightarrow> 'v state_manager \<Rightarrow> 'v state_manager" where
  "subscribe k cb s =
     (let ls = (case listeners s k of None \<Rightarrow> (listeners s)(k \<mapsto> []) | Some _ \<Rightarrow> listeners s)
      in s\<lparr>listeners := ls(k \<mapsto> set_add cb (case ls k of None \<Rightarrow> [] | Some cbs \<Rightarrow> cbs))\<rparr>)"

definition unsubscribe :: "key \<Rightarrow> callback \<Rightarrow> 'v state_manager \<Rightarrow> 'v state_manager" where
  "unsubscribe k cb s =
     (case listeners s k of
        None \<Rightarrow> s
      | Some cbs \<Rightarrow> s\<lparr>listeners := (listeners s)(k \<mapsto> set_delete cb cbs)\<rparr>)"

text \<open>The callbacks currently subscribed to a key, in subscription order.\<close>

definition subscribers :: "key \<Rightarrow> 'v state_manager \<Rightarrow> callback list" where
  "subscribers k s = (case listeners s k of None \<Rightarrow> [] | Some cbs \<Rightarrow> cbs)"

text \<open>
  The call \<open>callback(newValue, oldValue)\<close>: the invocation is recorded, the callback
  unsubscribes what its behaviour says, and the result is what it throws, if anything.
\<close>

definition invoke ::
  "'v host \<Rightarrow> 'v jsval \<Rightarrow> 'v jsval \<Rightarrow> callback \<Rightarrow> 'v state_manager \<Rightarrow> nat option \<times> 'v state_manager" where
  "invoke h newValue oldValue cb s =
     (throws (behaviour_of h cb newValue oldValue),
      fold (\<lambda>(k, c). unsubscribe k c) (unsubscribes (behaviour_of h cb newValue oldValue))
        (s\<lparr>calls := calls s @ [(cb, newValue, oldValue)]\<rparr>))"

text \<open>
  \<open>Set.prototype.forEach\<close> visits the elements in insertion order and passes over an
  element that was deleted before its turn; there is no \<open>try\<close> around the call, so the
  first callback that throws ends the loop. The list is the part of the set not visited
  yet, as it was when the loop began.
\<close>

fun forEach ::
  "'v host \<Rightarrow> key \<Rightarrow> 'v jsval \<Rightarrow> 'v jsval \<Rightarrow> callback list \<Rightarrow> 'v state_manager
     \<Rightarrow> thrown option \<times> 'v state_manager" where
  "forEach h k newValue oldValue [] s = (None, s)"
| "forEach h k newValue oldValue (cb # cbs) s =
     (if cb \<in> set (subscribers k s)
      then (case invoke h newValue oldValue cb s of
              (Some e, s1) \<Rightarrow> (Some (Raised e), s1)
            | (None, s1) \<Rightarrow> forEach h k newValue oldValue cbs s1)
      else forEach h k newValue oldValue cbs s)"

definition notifyListeners ::
  "'v host \<Rightarrow> key \<Rightarrow> 'v jsval \<Rightarrow> 'v jsval \<Rightarrow> 'v state_manager \<Rightarrow> thrown option \<times> 'v state_manager" where
  "notifyListeners h k newValue oldValue s =
     (case listeners s k of
        None \<Rightarrow> (None, s)
      | Some cbs \<Rightarrow> forEach h k newValue oldValue cbs s)"

text \<open>\<open>setState\<close> returns what it throws, if anything, and the store it leaves.\<close>

definition setState ::
  "'v host \<Rightarrow> key \<Rightarrow> 'v jsval \<Rightarrow> 'v state_manager \<Rightarrow> thrown option \<times> 'v state_manager" where
  "setState h k v s =
     (case getState h k s of
        Inl e \<Rightarrow> (Some e, s)
      | Inr oldValue \<Rightarrow>
          (case assign h k v s of
             Inl e \<Rightarrow> (Some e, s)
           | Inr s1 \<Rightarrow> notifyListeners h k v oldValue s1))"

text \<open>
  The calls \<open>setState(k, v1)\<close>, \<open>setState(k, v2)\<close>, ... one after the other, each made whatever
  the calls before it did: the result lists what each call threw.
\<close>

fun setStates ::
  "'v host \<Rightarrow> key \<Rightarrow> 'v jsval list \<Rightarrow> 'v state_manager \<Rightarrow> thrown option list \<times> 'v state_manager" where
  "setStates h k [] s = ([], s)"
| "setStates h k (v # vs) s =
     (case setState h k v s of
        (r, s1) \<Rightarrow> (case setStates h k vs s1 of (rs, s2) \<Rightarrow> (r # rs, s2)))"

text \<open>The store as the constructor leaves it; the two arrays and the two sets are fresh
  objects.\<close>

datatype prim = Str string | Number int | Boolean bool

definition new_StateManager :: "prim state_manager" where
  "new_StateManager =
     \<lparr>state = map_of
        [(''user'', Null),
         (''theme'', Prim (Str ''light'')),
         (''notifications'', Obj (Ref 0)),
         (''posts'', Obj (Ref 1)),
         (''currentPage'', Prim (Number 1)),
         (''isLoading'', Prim (Boolean False)),
         (''websocket'', Null),
         (''typingUsers'', Obj (Ref 2)),
         (''onlineUsers'', Obj (Ref 3))],
      state_proto = Some ObjectPrototype,
      listeners = Map.empty,
      calls = []\<rparr>"

text \<open>The representation invariant of the listener sets: no callback twice.\<close>

definition listener_sets :: "'v state_manager \<Rightarrow> bool" where
  "listener_sets s = (\<forall>k cbs. listeners s k = Some cbs \<longrightarrow> distinct cbs)"

text \<open>
  A key that the store can hold: it is an own property, or the assignment creates one
  because the prototype chain has nothing under the key but, at most, a writable data
  property. On the store as constructed that is every key but \<open>__proto__\<close>.
\<close>

definition own_or_creatable :: "'v host \<Rightarrow> key \<Rightarrow> 'v state_manager \<Rightarrow> bool" where
  "own_or_creatable h k s =
     (case state s k of
        Some _ \<Rightarrow> True
      | None \<Rightarrow>
          (case inherited_from h (state_proto s) k of
             Absent \<Rightarrow> True
           | Data w _ \<Rightarrow> w
           | _ \<Rightarrow> False))"

text \<open>The callbacks subscribed to \<open>k\<close> return normally and leave the listener set of \<open>k\<close> alone.\<close>

definition quiet_subscribers :: "'v host \<Rightarrow> key \<Rightarrow> 'v state_manager \<Rightarrow> bool" where
  "quiet_subscribers h k s =
     (\<forall>cb\<in>set (subscribers k s). \<forall>newValue oldValue.
        throws (behaviour_of h cb newValue oldValue) = None
        \<and> k \<notin> fst ` set (unsubscribes (behaviour_of h cb newValue oldValue)))"

subsection \<open>Stores and callbacks to try the operations on\<close>

text \<open>
  \<open>demo_store\<close>: callback 2 subscribes to \<open>theme\<close> first, then callback 1, then callback 2
  once more. With \<open>calm\<close> every callback just returns; with \<open>rowdy\<close> callback 2 throws and
  callback 3 unsubscribes callback 1 from \<open>theme\<close>. Neither host knows any object.
\<close>

definition demo_store :: "prim state_manager" where
  "demo_store =
     subscribe ''theme'' 2 (subscribe ''theme'' 1 (subscribe ''theme'' 2 new_StateManager))"

text \<open>\<open>relay_store\<close>: callback 3 subscribes to \<open>theme\<close>, then callback 1.\<close>

definition relay_store :: "prim state_manager" where
  "relay_store = subscribe ''theme'' 1 (subscribe ''theme'' 3 new_StateManager)"

definition calm :: "prim host" where
  "calm = \<lparr>inherit = (\<lambda>ob k. Absent), cyclic = (\<lambda>ob. False),
           behaviour_of = (\<lambda>cb newValue oldValue. \<lparr>unsubscribes = [], throws = None\<rparr>)\<rparr>"

definition rowdy :: "prim host" where
  "rowdy = \<lparr>inherit = (\<lambda>ob k. Absent), cyclic = (\<lambda>ob. False),
            behaviour_of = (\<lambda>cb newValue oldValue.
                      if cb = 2 then \<lparr>unsubscribes = [], throws = Some 0\<rparr>
                         else if cb = 3 then \<lparr>unsubscribes = [(''theme'', 1)], throws = None\<rparr>
                         else \<lparr>unsubscribes = [], throws = None\<rparr>)\<rparr>"

definition dark :: "prim jsval" where
  "dark = Prim (Str ''dark'')"

definition light :: "prim jsval" where
  "light = Prim (Str ''light'')"

section \<open>The page: clock, timers, random identifiers\<close>

text \<open>
  The managers below are module-level singletons that call each other, so they share one
  state record \<open>app\<close>. The browser contributes a clock (milliseconds), the queue of
  pending timers and the random source behind \<open>generateUUID\<close>, which is an oracle:
  \<open>rng\<close> lists the identifiers that successive calls return.

  A timer callback is a closure; \<open>action\<close> names each closure of the source together with
  the values it captures. Timer handles are positive integers in a browser, so the
  truthiness test on a stored handle is the test against \<open>null\<close>.
\<close>

type_synonym uuid = string

datatype action =
    ToastReveal nat
  | AutoRemove uuid
  | FinishRemove nat uuid
  | Reconnect
  | Heartbeat

record timer =
  timer_id :: nat
  due :: nat
  delay :: nat
  action :: action
  repeating :: bool

datatype error = TypeError | NotFoundError | SyntaxError

datatype console_entry = Log string | LogAttempt nat | Err string

record toast =
  data_id :: uuid
  severity :: string
  body :: string
  show_class :: bool

record notification =
  nid :: uuid
  element :: nat

datatype readyState = CONNECTING | OPEN | CLOSING | CLOSED

datatype frame = Ping | NewPost uuid | TypingStart string string | TypingStop string string

datatype inbound =
    In_new_post
  | In_user_online string
  | In_user_offline string
  | In_typing_start string
  | In_typing_stop string
  | In_notification string string
  | In_other
  | In_malformed

record js_file =
  file_name :: string
  file_size :: nat
  file_type :: string

record preview =
  preview_name :: string
  has_media :: bool

record post =
  post_id :: uuid
  content :: string
  media :: "string option"
  privacy :: string
  likes :: int
  comments :: int
  shares :: int

record card =
  card_post :: uuid
  active :: bool

record app =
  now :: nat
  timers :: "timer list"
  next_timer :: nat
  scheduled :: "timer list"
  rng :: "nat \<Rightarrow> uuid"
  rng_ix :: nat
  console :: "console_entry list"
  uncaught :: "error list"
  notifications :: "notification list"
  elements :: "nat \<rightharpoonup> toast"
  next_element :: nat
  container :: "nat list"
  dom_removals :: "nat list"
  ws :: "readyState option"
  reconnectAttempts :: nat
  heartbeatInterval :: "nat option"
  wire :: "frame list"
  onlineUsers :: "string set"
  typingUsers :: "string set"
  selectedFiles :: "js_file list"
  previews :: "preview list"
  posts :: "post list"
  cards :: "card list"

definition MAX_FILE_SIZE :: nat where
  "MAX_FILE_SIZE = 10 * 1024 * 1024"

definition SUPPORTED_FORMATS :: "string list" where
  "SUPPORTED_FORMATS = [''jpg'', ''jpeg'', ''png'', ''gif'', ''mp4'', ''webm'']"

definition NOTIFICATION_TIMEOUT :: int where
  "NOTIFICATION_TIMEOUT = 5000"

definition maxReconnectAttempts :: nat where
  "maxReconnectAttempts = 5"

definition reconnectDelay :: nat where
  "reconnectDelay = 1000"

definition maxFiles :: nat where
  "maxFiles = 10"

text \<open>The page as the module-level constructors leave it, at time 0.\<close>

definition initial :: "(nat \<Rightarrow> uuid) \<Rightarrow> app" where
  "initial r =
     \<lparr>now = 0, timers = [], next_timer = 1, scheduled = [], rng = r, rng_ix = 0, console = [], uncaught = [],
      notifications = [], elements = Map.empty, next_element = 0, container = [],
      dom_removals = [],
      ws = None, reconnectAttempts = 0, heartbeatInterval = None, wire = [],
      onlineUsers = {}, typingUsers = {},
      selectedFiles = [], previews = [], posts = [], cards = []\<rparr>"

definition generateUUID :: "app \<Rightarrow> uuid \<times> app" where
  "generateUUID s = (rng s (rng_ix s), s\<lparr>rng_ix := Suc (rng_ix s)\<rparr>)"

definition register :: "timer \<Rightarrow> app \<Rightarrow> nat \<times> app" where
  "register t s =
     (timer_id t,
      s\<lparr>timers := timers s @ [t], scheduled := scheduled s @ [t],
        next_timer := Suc (next_timer s)\<rparr>)"

text \<open>
  \<open>setTimeout\<close> and \<open>setInterval\<close> take the delay as a 32-bit signed integer: the number
  wraps around modulo \<open>2^32\<close>, and a negative delay counts as 0.
\<close>

definition ToInt32 :: "int \<Rightarrow> int" where
  "ToInt32 d = (d + 2 ^ 31) mod 2 ^ 32 - 2 ^ 31"

definition timeout_of :: "int \<Rightarrow> nat" where
  "timeout_of d = (if ToInt32 d < 0 then 0 else nat (ToInt32 d))"

definition setTimeout :: "int \<Rightarrow> action \<Rightarrow> app \<Rightarrow> nat \<times> app" where
  "setTimeout d a s =
     register \<lparr>timer_id = next_timer s, due = now s + timeout_of d, delay = timeout_of d,
               action = a, repeating = False\<rparr> s"

definition setInterval :: "int \<Rightarrow> action \<Rightarrow> app \<Rightarrow> nat \<times> app" where
  "setInterval d a s =
     register \<lparr>timer_id = next_timer s, due = now s + timeout_of d, delay = timeout_of d,
               action = a, repeating = True\<rparr> s"

definition clearInterval :: "nat \<Rightarrow> app \<Rightarrow> app" where
  "clearInterval i s = s\<lparr>timers := filter (\<lambda>t. timer_id t \<noteq> i) (timers s)\<rparr>"

definition log :: "console_entry \<Rightarrow> app \<Rightarrow> app" where
  "log e s = s\<lparr>console := console s @ [e]\<rparr>"

text \<open>
  \<open>sanitizeHTML\<close> writes the string into a text node and reads the markup back: the
  serialisation escapes the ampersand and the angle brackets.
\<close>

fun escape :: "char \<Rightarrow> string" where
  "escape c =
     (if c = CHR ''&'' then ''&amp;''
      else if c = CHR ''<'' then ''&lt;''
      else if c = CHR ''>'' then ''&gt;''
      else [c])"

definition sanitizeHTML :: "string \<Rightarrow> string" where
  "sanitizeHTML str = concat (map escape str)"

section \<open>NotificationManager\<close>

text \<open>
  Toast elements live in a heap \<open>elements\<close>, addressed by handle: the entry in
  \<open>this.notifications\<close> and the closures of \<open>show\<close> and \<open>remove\<close> hold the same element.
  \<open>container\<close> lists the children of \<open>#toastContainer\<close>, which the page is assumed to
  have; an element's \<open>parentNode\<close> is non-null exactly when it is in that list.
  \<open>dom_removals\<close> records each \<open>removeChild\<close> that was carried out.
\<close>

definition createNotification :: "uuid \<Rightarrow> string \<Rightarrow> string \<Rightarrow> app \<Rightarrow> nat \<times> app" where
  "createNotification i message type s =
     (next_element s,
      s\<lparr>elements := (elements s)(next_element s \<mapsto>
            \<lparr>data_id = i, severity = type, body = sanitizeHTML message, show_class = False\<rparr>),
        next_element := Suc (next_element s)\<rparr>)"

definition appendChild :: "nat \<Rightarrow> app \<Rightarrow> app" where
  "appendChild el s = s\<lparr>container := removeAll el (container s) @ [el]\<rparr>"

definition parentNode :: "nat \<Rightarrow> app \<Rightarrow> bool" where
  "parentNode el s = (el \<in> set (container s))"

definition removeChild :: "nat \<Rightarrow> app \<Rightarrow> error + app" where
  "removeChild el s =
     (if el \<in> set (container s)
      then Inr (s\<lparr>container := removeAll el (container s),
                 dom_removals := dom_removals s @ [el]\<rparr>)
      else Inl NotFoundError)"

definition classList_set :: "nat \<Rightarrow> bool \<Rightarrow> app \<Rightarrow> app" where
  "classList_set el b s =
     s\<lparr>elements := (elements s)(el := map_option (\<lambda>t. t\<lparr>show_class := b\<rparr>) (elements s el))\<rparr>"

definition show_notification :: "string \<Rightarrow> string \<Rightarrow> int \<Rightarrow> app \<Rightarrow> uuid \<times> app" where
  "show_notification message type duration s =
     (let (i, s1) = generateUUID s;
          (el, s2) = createNotification i message type s1;
          s3 = appendChild el s2;
          s4 = s3\<lparr>notifications := notifications s3 @ [\<lparr>nid = i, element = el\<rparr>]\<rparr>;
          s5 = snd (setTimeout 100 (ToastReveal el) s4);
          s6 = (if duration > 0 then snd (setTimeout duration (AutoRemove i) s5) else s5)
      in (i, s6))"

definition remove_notification :: "uuid \<Rightarrow> app \<Rightarrow> app" where
  "remove_notification i s =
     (case find (\<lambda>n. nid n = i) (notifications s) of
        None \<Rightarrow> s
      | Some n \<Rightarrow> snd (setTimeout 300 (FinishRemove (element n) i)
                        (classList_set (element n) False s)))"

text \<open>The closure that \<open>remove\<close> hands to \<open>setTimeout\<close>; an exception would end it there.\<close>

definition finish_remove :: "nat \<Rightarrow> uuid \<Rightarrow> app \<Rightarrow> app" where
  "finish_remove el i s =
     (case (if parentNode el s then removeChild el s else Inr s) of
        Inl e \<Rightarrow> s\<lparr>uncaught := uncaught s @ [e]\<rparr>
      | Inr s1 \<Rightarrow> s1\<lparr>notifications := filter (\<lambda>n. nid n \<noteq> i) (notifications s1)\<rparr>)"

definition clear_notifications :: "app \<Rightarrow> app" where
  "clear_notifications s = foldl (\<lambda>s n. remove_notification (nid n) s) s (notifications s)"

text \<open>A notification is tracked while \<open>this.notifications\<close> holds an entry with its id.\<close>

definition tracked :: "uuid \<Rightarrow> app \<Rightarrow> bool" where
  "tracked i s = (i \<in> nid ` set (notifications s))"

section \<open>WebSocketManager\<close>

text \<open>
  \<open>ws\<close> is the \<open>readyState\<close> of the socket in \<open>this.ws\<close>, \<open>None\<close> while \<open>this.ws\<close> is
  \<open>null\<close>; \<open>wire\<close> lists the frames handed to the socket's \<open>send\<close>. Whether
  \<open>new WebSocket\<close> returns or throws is the environment's choice, the argument of
  \<open>connect\<close>.
\<close>

definition send :: "frame \<Rightarrow> app \<Rightarrow> app" where
  "send data s = (if ws s = Some OPEN then s\<lparr>wire := wire s @ [data]\<rparr> else s)"

definition startHeartbeat :: "app \<Rightarrow> app" where
  "startHeartbeat s =
     (let (i, s1) = setInterval 30000 Heartbeat s in s1\<lparr>heartbeatInterval := Some i\<rparr>)"

definition stopHeartbeat :: "app \<Rightarrow> app" where
  "stopHeartbeat s =
     (case heartbeatInterval s of
        None \<Rightarrow> s
      | Some i \<Rightarrow> (clearInterval i s)\<lparr>heartbeatInterval := None\<rparr>)"

definition handleReconnect :: "app \<Rightarrow> app" where
  "handleReconnect s =
     (if reconnectAttempts s < maxReconnectAttempts
      then snd (setTimeout (int (reconnectDelay * 2 ^ reconnectAttempts s)) Reconnect s)
      else snd (show_notification ''Connection lost. Please refresh the page.'' ''danger'' 0 s))"

definition connect :: "bool \<Rightarrow> app \<Rightarrow> app" where
  "connect constructed s =
     (if constructed then s\<lparr>ws := Some CONNECTING\<rparr>
      else handleReconnect (log (Err ''WebSocket connection failed:'') s))"

text \<open>The closure that \<open>handleReconnect\<close> hands to \<open>setTimeout\<close>.\<close>

definition reconnect_callback :: "bool \<Rightarrow> app \<Rightarrow> app" where
  "reconnect_callback constructed s =
     (let s1 = s\<lparr>reconnectAttempts := Suc (reconnectAttempts s)\<rparr>;
          s2 = log (LogAttempt (reconnectAttempts s1)) s1
      in connect constructed s2)"

definition onopen :: "app \<Rightarrow> app" where
  "onopen s =
     (let s1 = log (Log ''WebSocket connected'') s;
          s2 = s1\<lparr>reconnectAttempts := 0\<rparr>;
          s3 = startHeartbeat s2
      in snd (show_notification ''Connected to ChatSpeed'' ''success'' NOTIFICATION_TIMEOUT s3))"

definition handleMessage :: "inbound \<Rightarrow> app \<Rightarrow> app" where
  "handleMessage data s =
     (case data of
        In_new_post \<Rightarrow> s
      | In_user_online u \<Rightarrow> s\<lparr>onlineUsers := insert u (onlineUsers s)\<rparr>
      | In_user_offline u \<Rightarrow> s\<lparr>onlineUsers := onlineUsers s - {u}\<rparr>
      | In_typing_start u \<Rightarrow> s\<lparr>typingUsers := insert u (typingUsers s)\<rparr>
      | In_typing_stop u \<Rightarrow> s\<lparr>typingUsers := typingUsers s - {u}\<rparr>
      | In_notification m ty \<Rightarrow> snd (show_notification m ty NOTIFICATION_TIMEOUT s)
      | _ \<Rightarrow> s)"

definition onmessage :: "inbound \<Rightarrow> app \<Rightarrow> app" where
  "onmessage data s =
     (if data = In_malformed then log (Err ''Error parsing WebSocket message:'') s
      else handleMessage data s)"

definition onclose :: "app \<Rightarrow> app" where
  "onclose s = handleReconnect (stopHeartbeat (log (Log ''WebSocket disconnected'') s))"

definition onerror :: "app \<Rightarrow> app" where
  "onerror s = log (Err ''WebSocket error:'') s"

definition disconnect :: "app \<Rightarrow> app" where
  "disconnect s =
     (let s1 = stopHeartbeat s
      in case ws s1 of
           None \<Rightarrow> s1
         | Some r \<Rightarrow> s1\<lparr>ws := Some (if r = CLOSED then CLOSED else CLOSING)\<rparr>)"

subsection \<open>What the transport delivers\<close>

text \<open>
  A socket fires \<open>open\<close> once, when it leaves \<open>CONNECTING\<close>. It fires \<open>close\<close> once, when
  it becomes \<open>CLOSED\<close>; when the connection fails, the browser sets \<open>CLOSED\<close> and fires
  \<open>error\<close> and then \<open>close\<close> in one task. \<open>readyState\<close> turns \<open>CLOSING\<close> when the closing
  handshake starts.
\<close>

definition live :: "app \<Rightarrow> bool" where
  "live s = (ws s = Some CONNECTING \<or> ws s = Some OPEN \<or> ws s = Some CLOSING)"

definition socket_open :: "app \<Rightarrow> app" where
  "socket_open s = (if ws s = Some CONNECTING then onopen (s\<lparr>ws := Some OPEN\<rparr>) else s)"

definition socket_closing :: "app \<Rightarrow> app" where
  "socket_closing s = (if ws s = Some OPEN then s\<lparr>ws := Some CLOSING\<rparr> else s)"

definition socket_close :: "app \<Rightarrow> app" where
  "socket_close s = (if live s then onclose (s\<lparr>ws := Some CLOSED\<rparr>) else s)"

definition socket_fail :: "app \<Rightarrow> app" where
  "socket_fail s = (if live s then onclose (onerror (s\<lparr>ws := Some CLOSED\<rparr>)) else s)"

subsection \<open>Timers firing\<close>

text \<open>
  The pending timer that fires next is the one due first, the one registered first among
  equals. A timeout leaves the queue when it fires, an interval is armed again.
\<close>

fun earliest :: "timer list \<Rightarrow> timer option" where
  "earliest [] = None"
| "earliest (t # ts) =
     (case earliest ts of
        None \<Rightarrow> Some t
      | Some u \<Rightarrow> if due t \<le> due u then Some t else Some u)"

definition fire :: "bool \<Rightarrow> action \<Rightarrow> app \<Rightarrow> app" where
  "fire constructed a s =
     (case a of
        ToastReveal el \<Rightarrow> classList_set el True s
      | AutoRemove i \<Rightarrow> remove_notification i s
      | FinishRemove el i \<Rightarrow> finish_remove el i s
      | Reconnect \<Rightarrow> reconnect_callback constructed s
      | Heartbeat \<Rightarrow> send Ping s)"

definition dequeue :: "timer \<Rightarrow> app \<Rightarrow> app" where
  "dequeue t s =
     (let t' = max (now s) (due t)
      in s\<lparr>now := t',
           timers := (if repeating t
                      then map (\<lambda>u. if u = t then u\<lparr>due := t' + delay t\<rparr> else u) (timers s)
                      else remove1 t (timers s))\<rparr>)"

definition timer_event :: "bool \<Rightarrow> app \<Rightarrow> app" where
  "timer_event constructed s =
     (case earliest (timers s) of
        None \<Rightarrow> s
      | Some t \<Rightarrow> fire constructed (action t) (dequeue t s))"

definition elapse :: "nat \<Rightarrow> app \<Rightarrow> app" where
  "elapse d s = (if list_all (\<lambda>t. now s + d \<le> due t) (timers s) then s\<lparr>now := now s + d\<rparr> else s)"

text \<open>
  What can happen to the page, one task at a time: time passes, the timer due next
  fires, some component shows a notification, the user dismisses one, the page connects
  (once, when it starts: while there is no socket and no reconnect is pending), the
  transport delivers an event, some component sends a frame.
\<close>

datatype event =
    Elapse nat
  | Timer bool
  | Connect bool
  | Show string string int
  | Dismiss uuid
  | Clear
  | Disconnect
  | SocketOpen
  | SocketClosing
  | SocketClose
  | SocketFail
  | Message inbound
  | Send frame

fun step :: "event \<Rightarrow> app \<Rightarrow> app" where
  "step (Elapse d) s = elapse d s"
| "step (Timer constructed) s = timer_event constructed s"
| "step (Connect constructed) s =
     (if ws s = None \<and> list_all (\<lambda>t. action t \<noteq> Reconnect) (timers s)
      then connect constructed s else s)"
| "step (Show m ty d) s = snd (show_notification m ty d s)"
| "step (Dismiss i) s = remove_notification i s"
| "step Clear s = clear_notifications s"
| "step Disconnect s = disconnect s"
| "step SocketOpen s = socket_open s"
| "step SocketClosing s = socket_closing s"
| "step SocketClose s = socket_close s"
| "step SocketFail s = socket_fail s"
| "step (Message data) s = onmessage data s"
| "step (Send data) s = send data s"

definition run :: "event list \<Rightarrow> app \<Rightarrow> app" where
  "run evs s = fold step evs s"

section \<open>MediaManager\<close>

text \<open>
  \<open>file.name.split('.').pop().toLowerCase()\<close> is the part of the name after its last dot,
  the whole name when it has no dot, in lower case (of the letters A to Z here).
  \<open>previews\<close> lists the preview elements of \<open>#mediaPreview\<close>, which the page is assumed to
  have; a preview holds an \<open>img\<close> or \<open>video\<close> child when the file's type says so.

  \<open>removeFile\<close> and \<open>clearAll\<close> look a preview up with
  \<open>document.querySelector(`[data-file-name="${fileName}"]`)\<close>: the name is spliced into a
  CSS selector between double quotes. A name without the characters that are special
  there (the double quote, the backslash, the line breaks and the null character) selects
  the first preview with that name. For any other name the selector is whatever the name
  makes of it: the selector engine may throw a \<open>SyntaxError\<close> or find some element, and is
  a parameter here.
\<close>

type_synonym selector_engine = "string \<Rightarrow> preview list \<Rightarrow> error + preview option"

definition plain_name :: "string \<Rightarrow> bool" where
  "plain_name n =
     (\<forall>c\<in>set n. c \<notin> set [CHR 0x22, CHR 0x5C, CHR 0x0A, CHR 0x0D, CHR 0x0C, CHR 0x00])"

definition querySelector :: "selector_engine \<Rightarrow> string \<Rightarrow> app \<Rightarrow> error + preview option" where
  "querySelector engine fileName s =
     (if plain_name fileName then Inr (find (\<lambda>p. preview_name p = fileName) (previews s))
      else engine fileName (previews s))"

definition toLowerCase :: "string \<Rightarrow> string" where
  "toLowerCase str =
     map (\<lambda>c. case map_of (zip ''ABCDEFGHIJKLMNOPQRSTUVWXYZ'' ''abcdefghijklmnopqrstuvwxyz'') c of
                None \<Rightarrow> c
              | Some l \<Rightarrow> l) str"

definition extension_of :: "string \<Rightarrow> string" where
  "extension_of name = toLowerCase (rev (takeWhile (\<lambda>c. c \<noteq> CHR ''.'') (rev name)))"

definition validateFile :: "js_file \<Rightarrow> app \<Rightarrow> bool \<times> app" where
  "validateFile f s =
     (if file_size f > MAX_FILE_SIZE
      then (False, snd (show_notification (''File '' @ file_name f @ '' is too large (max 10MB)'')
                          ''danger'' NOTIFICATION_TIMEOUT s))
      else let extension = extension_of (file_name f)
           in if extension \<notin> set SUPPORTED_FORMATS
              then (False, snd (show_notification (''File type '' @ extension @ '' not supported'')
                                  ''danger'' NOTIFICATION_TIMEOUT s))
              else (True, s))"

text \<open>\<open>files.filter(file => this.validateFile(file))\<close>, the state threaded through.\<close>

fun filter_validateFile :: "js_file list \<Rightarrow> app \<Rightarrow> js_file list \<times> app" where
  "filter_validateFile [] s = ([], s)"
| "filter_validateFile (f # fs) s =
     (let (ok, s1) = validateFile f s;
          (vs, s2) = filter_validateFile fs s1
      in (if ok then f # vs else vs, s2))"

definition createPreview :: "js_file \<Rightarrow> app \<Rightarrow> app" where
  "createPreview f s =
     s\<lparr>previews := previews s @
          [\<lparr>preview_name = file_name f,
            has_media = (take 6 (file_type f) = ''image/'' \<or> take 6 (file_type f) = ''video/'')\<rparr>]\<rparr>"

definition processFiles :: "js_file list \<Rightarrow> app \<Rightarrow> app" where
  "processFiles files s =
     (let (validFiles, s1) = filter_validateFile files s
      in if length validFiles = 0
         then snd (show_notification ''No valid files selected'' ''warning'' NOTIFICATION_TIMEOUT s1)
         else if length (selectedFiles s1) + length validFiles > maxFiles
         then snd (show_notification ''Maximum 10 files allowed'' ''warning'' NOTIFICATION_TIMEOUT s1)
         else foldl (\<lambda>s f. createPreview f (s\<lparr>selectedFiles := selectedFiles s @ [f]\<rparr>))
                s1 validFiles)"

definition removeFile :: "selector_engine \<Rightarrow> string \<Rightarrow> app \<Rightarrow> app" where
  "removeFile engine fileName s =
     (let s1 = s\<lparr>selectedFiles := filter (\<lambda>f. file_name f \<noteq> fileName) (selectedFiles s)\<rparr>
      in case querySelector engine fileName s1 of
           Inl e \<Rightarrow> s1\<lparr>uncaught := uncaught s1 @ [e]\<rparr>
         | Inr None \<Rightarrow> s1
         | Inr (Some p) \<Rightarrow>
             if has_media p then s1\<lparr>previews := remove1 p (previews s1)\<rparr>
             else s1\<lparr>uncaught := uncaught s1 @ [TypeError]\<rparr>)"

definition uploadFiles :: "app \<Rightarrow> app" where
  "uploadFiles s = s"

text \<open>
  The loop of \<open>clearAll\<close> over the selected files changes nothing that is modelled, but
  its \<open>querySelector\<close> may throw: \<open>revoke_all\<close> is the exception that ends the loop, if any.
\<close>

fun revoke_all :: "selector_engine \<Rightarrow> js_file list \<Rightarrow> app \<Rightarrow> error option" where
  "revoke_all engine [] s = None"
| "revoke_all engine (f # fs) s =
     (case querySelector engine (file_name f) s of
        Inl e \<Rightarrow> Some e
      | Inr _ \<Rightarrow> revoke_all engine fs s)"

definition clearAll :: "selector_engine \<Rightarrow> app \<Rightarrow> app" where
  "clearAll engine s =
     (case revoke_all engine (selectedFiles s) s of
        Some e \<Rightarrow> s\<lparr>uncaught := uncaught s @ [e]\<rparr>
      | None \<Rightarrow> s\<lparr>selectedFiles := [], previews := []\<rparr>)"

datatype media_op = ProcessFiles "js_file list" | RemoveFile string | UploadFiles | ClearAll

fun media_step :: "selector_engine \<Rightarrow> media_op \<Rightarrow> app \<Rightarrow> app" where
  "media_step engine (ProcessFiles files) s = processFiles files s"
| "media_step engine (RemoveFile fileName) s = removeFile engine fileName s"
| "media_step engine UploadFiles s = uploadFiles s"
| "media_step engine ClearAll s = clearAll engine s"

definition valid_file :: "js_file \<Rightarrow> bool" where
  "valid_file f =
     (file_size f \<le> MAX_FILE_SIZE \<and> extension_of (file_name f) \<in> set SUPPORTED_FORMATS)"

section \<open>PostManager\<close>

text \<open>
  An \<open>async\<close> method runs up to its \<open>await\<close> when it is called and goes on when the
  request settles, half a second later, with whatever ran in between done. Each such
  method is two functions: the part before the \<open>await\<close>, which returns the request it
  sent, and the part after it, which takes the outcome (\<open>True\<close>: the promise resolved).
  \<open>cards\<close> lists the post cards of \<open>#postsContainer\<close>, first child first, each with the
  \<open>active\<close> class of its reaction button.
\<close>

fun remove_first :: "('a \<Rightarrow> bool) \<Rightarrow> 'a list \<Rightarrow> 'a list" where
  "remove_first P [] = []"
| "remove_first P (x # xs) = (if P x then xs else x # remove_first P xs)"

fun update_first :: "('a \<Rightarrow> bool) \<Rightarrow> ('a \<Rightarrow> 'a) \<Rightarrow> 'a list \<Rightarrow> 'a list" where
  "update_first P f [] = []"
| "update_first P f (x # xs) = (if P x then f x # xs else x # update_first P f xs)"

definition renderPost :: "post \<Rightarrow> bool \<Rightarrow> app \<Rightarrow> app" where
  "renderPost p prepend s =
     (let c = \<lparr>card_post = post_id p, active = False\<rparr>
      in if prepend then s\<lparr>cards := c # cards s\<rparr> else s\<lparr>cards := cards s @ [c]\<rparr>)"

definition createPost :: "string \<Rightarrow> string option \<Rightarrow> string \<Rightarrow> app \<Rightarrow> post \<times> app" where
  "createPost text m priv s =
     (let (i, s1) = generateUUID s;
          postData = \<lparr>post_id = i, content = sanitizeHTML text, media = m, privacy = priv,
                      likes = 0, comments = 0, shares = 0\<rparr>;
          s2 = s1\<lparr>posts := postData # posts s1\<rparr>;
          s3 = renderPost postData True s2
      in (postData, s3))"

definition createPost_settled :: "bool \<Rightarrow> post \<Rightarrow> app \<Rightarrow> app" where
  "createPost_settled resolved postData s =
     (if resolved
      then send (NewPost (post_id postData))
             (snd (show_notification ''Post created successfully!'' ''success''
                     NOTIFICATION_TIMEOUT s))
      else let s1 = log (Err ''Error creating post:'') s;
               s2 = snd (show_notification ''Failed to create post. Please try again.''
                           ''danger'' NOTIFICATION_TIMEOUT s1);
               s3 = s2\<lparr>posts := filter (\<lambda>p. post_id p \<noteq> post_id postData) (posts s2)\<rparr>
           in s3\<lparr>cards := remove_first (\<lambda>c. card_post c = post_id postData) (cards s3)\<rparr>)"

definition toggleReaction :: "uuid \<Rightarrow> string \<Rightarrow> app \<Rightarrow> (string \<times> string) option \<times> app" where
  "toggleReaction postId reactionType s =
     (case find (\<lambda>p. post_id p = postId) (posts s) of
        None \<Rightarrow> (None, s)
      | Some p \<Rightarrow>
          (case find (\<lambda>c. card_post c = postId) (cards s) of
             None \<Rightarrow> (None, s\<lparr>uncaught := uncaught s @ [TypeError]\<rparr>)
           | Some button \<Rightarrow>
               let isActive = active button;
                   s1 = (if isActive
                         then s\<lparr>posts := update_first (\<lambda>p. post_id p = postId)
                                            (\<lambda>p. p\<lparr>likes := max 0 (likes p - 1)\<rparr>) (posts s),
                                cards := update_first (\<lambda>c. card_post c = postId)
                                            (\<lambda>c. c\<lparr>active := False\<rparr>) (cards s)\<rparr>
                         else s\<lparr>posts := update_first (\<lambda>p. post_id p = postId)
                                            (\<lambda>p. p\<lparr>likes := likes p + 1\<rparr>) (posts s),
                                cards := update_first (\<lambda>c. card_post c = postId)
                                            (\<lambda>c. c\<lparr>active := True\<rparr>) (cards s)\<rparr>)
               in (Some (reactionType, if isActive then ''remove'' else ''add''), s1)))"

definition toggleReaction_settled :: "bool \<Rightarrow> app \<Rightarrow> app" where
  "toggleReaction_settled resolved s =
     (if resolved then s else log (Err ''Error updating reaction:'') s)"

section \<open>Invariants of the page\<close>

text \<open>
  What holds of the timer queue and of the toast elements in every state that the page
  reaches: no pending timer is overdue, timer handles are distinct, the only interval is
  the heartbeat whose handle \<open>heartbeatInterval\<close> holds, a heartbeat is pending only
  while the socket is open or closing, at most one reconnect is pending and only while
  no socket is live, and every toast element that was created is either a child of the
  container or was detached from it, once.
\<close>

definition clock_ok :: "app \<Rightarrow> bool" where
  "clock_ok s = (\<forall>t\<in>set (timers s). now s \<le> due t)"

definition timer_ids_ok :: "app \<Rightarrow> bool" where
  "timer_ids_ok s =
     ((\<forall>t\<in>set (timers s). timer_id t < next_timer s) \<and> distinct (map timer_id (timers s)))"

definition heartbeat_ok :: "app \<Rightarrow> bool" where
  "heartbeat_ok s =
     ((\<forall>t\<in>set (timers s). action t = Heartbeat \<longrightarrow> heartbeatInterval s = Some (timer_id t)) \<and>
      (\<forall>t\<in>set (timers s). repeating t \<longrightarrow> action t = Heartbeat) \<and>
      (\<forall>i. heartbeatInterval s = Some i \<longrightarrow>
           i < next_timer s \<and> (\<forall>t\<in>set (timers s). timer_id t = i \<longrightarrow> action t = Heartbeat)))"

definition socket_ok :: "app \<Rightarrow> bool" where
  "socket_ok s =
     (((\<exists>t\<in>set (timers s). action t = Heartbeat) \<longrightarrow> ws s = Some OPEN \<or> ws s = Some CLOSING) \<and>
      ((\<exists>t\<in>set (timers s). action t = Reconnect) \<longrightarrow> ws s = None \<or> ws s = Some CLOSED) \<and>
      (\<forall>t\<in>set (timers s). \<forall>u\<in>set (timers s).
          action t = Reconnect \<longrightarrow> action u = Reconnect \<longrightarrow> t = u))"

definition dom_ok :: "app \<Rightarrow> bool" where
  "dom_ok s =
     ((\<forall>n\<in>set (notifications s). element n < next_element s) \<and>
      (\<forall>el\<in>set (container s). el < next_element s) \<and>
      (\<forall>el\<in>set (dom_removals s). el < next_element s \<and> el \<notin> set (container s)) \<and>
      (\<forall>el<next_element s. el \<in> set (container s) \<or> el \<in> set (dom_removals s)) \<and>
      distinct (dom_removals s))"

definition tinv :: "app \<Rightarrow> bool" where
  "tinv s = (clock_ok s \<and> timer_ids_ok s \<and> heartbeat_ok s \<and> socket_ok s)"

definition inv :: "app \<Rightarrow> bool" where
  "inv s = (tinv s \<and> dom_ok s)"

text \<open>
  \<open>quiet s s'\<close>: from \<open>s\<close> to \<open>s'\<close> the socket manager's fields and the clock stay as they
  are and the timer queue only gains timeouts that are neither reconnects nor heartbeats.
\<close>

definition quiet :: "app \<Rightarrow> app \<Rightarrow> bool" where
  "quiet s s' =
     (now s' = now s \<and> ws s' = ws s \<and> heartbeatInterval s' = heartbeatInterval s \<and>
      reconnectAttempts s' = reconnectAttempts s \<and> wire s' = wire s \<and>
      next_timer s \<le> next_timer s' \<and>
      (\<exists>new. timers s' = timers s @ new \<and> distinct (map timer_id new) \<and>
         (\<forall>t\<in>set new. now s \<le> due t \<and> action t \<noteq> Heartbeat \<and> action t \<noteq> Reconnect \<and> \<not> repeating t \<and>
                       next_timer s \<le> timer_id t \<and> timer_id t < next_timer s')))"

text \<open>The timers that \<open>show\<close> registers.\<close>

definition show_timers :: "nat \<Rightarrow> uuid \<Rightarrow> int \<Rightarrow> app \<Rightarrow> timer list" where
  "show_timers el i d s =
     \<lparr>timer_id = next_timer s, due = now s + 100, delay = 100, action = ToastReveal el,
      repeating = False\<rparr> #
     (if d > 0 then [\<lparr>timer_id = Suc (next_timer s), due = now s + timeout_of d,
                      delay = timeout_of d, action = AutoRemove i, repeating = False\<rparr>] else [])"


section \<open>What becomes of a notification\<close>

text \<open>
  The timers of the notification manager are the timers that are neither reconnects nor
  heartbeats. \<open>same_toasts s s'\<close>: from \<open>s\<close> to \<open>s'\<close> the tracked notifications, the random
  source and the pending timers of the notification manager stay as they are.
  \<open>toast_path s s'\<close>: on top of that, at most one notification was shown.
\<close>

definition toast_timer :: "timer \<Rightarrow> bool" where
  "toast_timer t = (action t \<noteq> Reconnect \<and> action t \<noteq> Heartbeat)"

definition same_toasts :: "app \<Rightarrow> app \<Rightarrow> bool" where
  "same_toasts s s' =
     (notifications s' = notifications s \<and> rng s' = rng s \<and> rng_ix s' = rng_ix s \<and>
      filter toast_timer (timers s') = filter toast_timer (timers s))"

definition toast_path :: "app \<Rightarrow> app \<Rightarrow> bool" where
  "toast_path s s' =
     (same_toasts s s' \<or>
      (\<exists>s1 m ty d. same_toasts s s1 \<and> s' = snd (show_notification m ty d s1)))"

text \<open>
  A pending timer that removes notification \<open>i\<close>: the automatic removal that \<open>show\<close>
  registered, or the closure that a call of \<open>remove\<close> registered. It is in time for the
  deadline \<open>D\<close> when the removal will be complete by then.
\<close>

definition removal_of :: "uuid \<Rightarrow> timer \<Rightarrow> bool" where
  "removal_of i t =
     (case action t of AutoRemove j \<Rightarrow> j = i | FinishRemove el j \<Rightarrow> j = i | _ \<Rightarrow> False)"

definition removal_due :: "uuid \<Rightarrow> nat \<Rightarrow> timer \<Rightarrow> bool" where
  "removal_due i D t =
     (case action t of
        AutoRemove j \<Rightarrow> j = i \<and> due t + 300 \<le> D
      | FinishRemove el j \<Rightarrow> j = i \<and> due t \<le> D
      | _ \<Rightarrow> False)"

definition on_schedule :: "uuid \<Rightarrow> nat \<Rightarrow> app \<Rightarrow> bool" where
  "on_schedule i D s = (tracked i s \<longrightarrow> (\<exists>t\<in>set (timers s). removal_due i D t))"

definition unscheduled :: "uuid \<Rightarrow> app \<Rightarrow> bool" where
  "unscheduled i s = (\<forall>t\<in>set (timers s). \<not> removal_of i t)"

text \<open>The random source never returns the identifier \<open>i\<close> from now on.\<close>

definition never_again :: "uuid \<Rightarrow> app \<Rightarrow> bool" where
  "never_again i s = (\<forall>k\<ge>rng_ix s. rng s k \<noteq> i)"

text \<open>
  An identifier is unused when no notification carries it and no removal of it is
  pending. The identifiers that the random source has still to yield are all unused.
\<close>

definition unused :: "uuid \<Rightarrow> app \<Rightarrow> bool" where
  "unused i s = (\<not> tracked i s \<and> unscheduled i s)"

definition fresh_ids :: "app \<Rightarrow> bool" where
  "fresh_ids s = (\<forall>k\<ge>rng_ix s. unused (rng s k) s)"

section \<open>What becomes of the connection\<close>

text \<open>
  The manager has given up when there is no live socket and no reconnect is pending.
  \<open>backoff_ok\<close>: a pending reconnect was registered with the delay that belongs to the
  current number of attempts, which is below the maximum.
\<close>

definition given_up :: "app \<Rightarrow> bool" where
  "given_up s = (\<not> live s \<and> (\<forall>t\<in>set (timers s). action t \<noteq> Reconnect))"

definition backoff_ok :: "app \<Rightarrow> bool" where
  "backoff_ok s =
     (\<forall>t\<in>set (timers s). action t = Reconnect \<longrightarrow>
        reconnectAttempts s < maxReconnectAttempts \<and>
        delay t = reconnectDelay * 2 ^ reconnectAttempts s)"

section \<open>Inputs to try the operations on\<close>

definition big_video :: js_file where
  "big_video = \<lparr>file_name = ''holiday.mp4'', file_size = 20000000, file_type = ''video/mp4''\<rparr>"

definition text_notes :: js_file where
  "text_notes = \<lparr>file_name = ''text_notes.txt'', file_size = 10, file_type = ''text/plain''\<rparr>"

definition cat :: js_file where
  "cat = \<lparr>file_name = ''my.Cat.PNG'', file_size = 1000, file_type = ''image/png''\<rparr>"

definition ids :: "nat \<Rightarrow> uuid" where
  "ids n = ''id'' @ replicate n (CHR ''x'')"

definition saved :: app where
  "saved = snd (show_notification ''Saved'' ''success'' 5000 (initial ids))"

text \<open>A file whose name breaks the selector, and an engine that rejects every odd name.\<close>

definition quoted :: js_file where
  "quoted = \<lparr>file_name = [CHR ''a'', CHR 0x22, CHR ''.'', CHR ''p'', CHR ''n'', CHR ''g''],
             file_size = 1000, file_type = ''image/png''\<rparr>"

definition strict_engine :: selector_engine where
  "strict_engine n ps = Inl SyntaxError"


text \<open>The same page after a notification that does not expire was shown.\<close>

definition lost :: app where
  "lost = snd (show_notification ''Connection lost'' ''danger'' 0 (initial ids))"

text \<open>
  The page after \<open>connect()\<close> when the connection fails at once (\<open>first_failure\<close>), when
  every further attempt has failed too and the fifth is under way (\<open>last_attempt\<close>), when
  the socket has just been constructed (\<open>dialling\<close>), when it is open (\<open>on_line\<close>), and
  when it is open and the toast that announced it is gone (\<open>settled\<close>).
\<close>

definition first_failure :: app where
  "first_failure = run [Connect True, SocketFail] (initial ids)"

definition last_attempt :: app where
  "last_attempt =
     run [Connect True, SocketFail, Timer True, SocketFail, Timer True, SocketFail, Timer True,
          SocketFail, Timer True, SocketFail, Timer True] (initial ids)"

definition dialling :: app where
  "dialling = run [Connect True] (initial ids)"

definition on_line :: app where
  "on_line = run [Connect True, SocketOpen] (initial ids)"

definition settled :: app where
  "settled = run [Connect True, SocketOpen, Timer True, Timer True, Timer True] (initial ids)"

section \<open>Properties of the state store\<close>

subsection \<open>What the operations leave alone\<close>

lemma unsubscribe_fields [simp]:
  "calls (unsubscribe k cb s) = calls s"
  "state (unsubscribe k cb s) = state s"
  "state_proto (unsubscribe k cb s) = state_proto s"
  by (simp_all add: unsubscribe_def split: option.splits)

lemma subscribers_unsubscribe: "subscribers k (unsubscribe k cb s) = removeAll cb (subscribers k s)"
  by (simp add: subscribers_def unsubscribe_def set_delete_def split: option.splits)

lemma listeners_unsubscribe_other: "k' \<noteq> k \<Longrightarrow> listeners (unsubscribe k cb s) k' = listeners s k'"
  by (simp add: unsubscribe_def split: option.splits)

lemma subscribers_unsubscribe_subset:
  "set (subscribers k' (unsubscribe k cb s)) \<subseteq> set (subscribers k' s)"
proof (cases "k' = k")
  case True
  then show ?thesis by (simp add: subscribers_unsubscribe)
next
  case False
  then show ?thesis by (simp add: subscribers_def listeners_unsubscribe_other)
qed

lemma unsubscribe_absent: "cb \<notin> set (subscribers k s) \<Longrightarrow> unsubscribe k cb s = s"
  by (auto simp: subscribers_def unsubscribe_def set_delete_def map_upd_triv split: option.splits)

lemma unsubscribe_all_fields [simp]:
  "calls (fold (\<lambda>(k, c). unsubscribe k c) us s) = calls s"
  "state (fold (\<lambda>(k, c). unsubscribe k c) us s) = state s"
  "state_proto (fold (\<lambda>(k, c). unsubscribe k c) us s) = state_proto s"
  by (induction us arbitrary: s) (simp_all add: split_def)

lemma unsubscribe_all_subset:
  "set (subscribers k' (fold (\<lambda>(k, c). unsubscribe k c) us s)) \<subseteq> set (subscribers k' s)"
proof (induction us arbitrary: s)
  case Nil
  then show ?case by simp
next
  case (Cons u us)
  have "set (subscribers k' (fold (\<lambda>(k, c). unsubscribe k c) us (unsubscribe (fst u) (snd u) s)))
          \<subseteq> set (subscribers k' (unsubscribe (fst u) (snd u) s))"
    by (rule Cons.IH)
  also have "\<dots> \<subseteq> set (subscribers k' s)"
    by (rule subscribers_unsubscribe_subset)
  finally show ?case by (simp add: split_def)
qed

lemma unsubscribe_all_other:
  "k' \<notin> fst ` set us \<Longrightarrow> listeners (fold (\<lambda>(k, c). unsubscribe k c) us s) k' = listeners s k'"
  by (induction us arbitrary: s) (auto simp: split_def listeners_unsubscribe_other)

lemma invoke_fields [simp]:
  "fst (invoke h nv ov cb s) = throws (behaviour_of h cb nv ov)"
  "calls (snd (invoke h nv ov cb s)) = calls s @ [(cb, nv, ov)]"
  "state (snd (invoke h nv ov cb s)) = state s"
  "state_proto (snd (invoke h nv ov cb s)) = state_proto s"
  by (simp_all add: invoke_def)

lemma invoke_subset: "set (subscribers k (snd (invoke h nv ov cb s))) \<subseteq> set (subscribers k s)"
proof -
  have "set (subscribers k (snd (invoke h nv ov cb s)))
          \<subseteq> set (subscribers k (s\<lparr>calls := calls s @ [(cb, nv, ov)]\<rparr>))"
    unfolding invoke_def snd_conv by (rule unsubscribe_all_subset)
  then show ?thesis by (simp add: subscribers_def)
qed

lemma invoke_other:
  "k \<notin> fst ` set (unsubscribes (behaviour_of h cb nv ov)) \<Longrightarrow>
   listeners (snd (invoke h nv ov cb s)) k = listeners s k"
  by (simp add: invoke_def unsubscribe_all_other)

lemma assign_fields:
  "assign h k v s = Inr s1 \<Longrightarrow> listeners s1 = listeners s \<and> calls s1 = calls s"
  by (auto simp: assign_def split: option.splits inherited.splits jsval.splits if_splits)

subsection \<open>A callback that is not subscribed is not called\<close>

lemma forEach_silent:
  "cb \<notin> set (subscribers k s) \<Longrightarrow>
   filter (\<lambda>c. fst c = cb) (calls (snd (forEach h k nv ov cbs s))) = filter (\<lambda>c. fst c = cb) (calls s)
   \<and> cb \<notin> set (subscribers k (snd (forEach h k nv ov cbs s)))"
proof (induction cbs arbitrary: s)
  case Nil
  then show ?case by simp
next
  case (Cons c cbs)
  show ?case
  proof (cases "c \<in> set (subscribers k s)")
    case False
    then show ?thesis using Cons by simp
  next
    case True
    then have ne: "c \<noteq> cb" using Cons.prems by blast
    obtain r s1 where i: "invoke h nv ov c s = (r, s1)" by (cases "invoke h nv ov c s")
    have s1: "s1 = snd (invoke h nv ov c s)" using i by simp
    have out: "cb \<notin> set (subscribers k s1)"
      using invoke_subset [of k h nv ov c s] Cons.prems s1 by blast
    have same: "filter (\<lambda>c. fst c = cb) (calls s1) = filter (\<lambda>c. fst c = cb) (calls s)"
      using ne by (simp add: s1)
    show ?thesis
    proof (cases r)
      case None
      then have "forEach h k nv ov (c # cbs) s = forEach h k nv ov cbs s1"
        using True i by simp
      then show ?thesis using Cons.IH [OF out] same by simp
    next
      case (Some e)
      then have "forEach h k nv ov (c # cbs) s = (Some (Raised e), s1)"
        using True i by simp
      then show ?thesis using out same by simp
    qed
  qed
qed

lemma notifyListeners_silent:
  "cb \<notin> set (subscribers k s) \<Longrightarrow>
   filter (\<lambda>c. fst c = cb) (calls (snd (notifyListeners h k nv ov s))) = filter (\<lambda>c. fst c = cb) (calls s)
   \<and> cb \<notin> set (subscribers k (snd (notifyListeners h k nv ov s)))"
  using forEach_silent [of cb k s h nv ov]
  by (simp add: notifyListeners_def split: option.splits)

lemma setState_silent:
  assumes "cb \<notin> set (subscribers k s)"
  shows "filter (\<lambda>c. fst c = cb) (calls (snd (setState h k v s))) = filter (\<lambda>c. fst c = cb) (calls s)
       \<and> cb \<notin> set (subscribers k (snd (setState h k v s)))"
proof (cases "getState h k s")
  case (Inl e)
  then show ?thesis using assms by (simp add: setState_def)
next
  case (Inr ov)
  show ?thesis
  proof (cases "assign h k v s")
    case (Inl e)
    then show ?thesis using assms Inr by (simp add: setState_def)
  next
    case (Inr s1)
    have f: "listeners s1 = listeners s" "calls s1 = calls s"
      using assign_fields [OF Inr] by simp_all
    then have "cb \<notin> set (subscribers k s1)"
      using assms by (simp add: subscribers_def)
    then have "filter (\<lambda>c. fst c = cb) (calls (snd (notifyListeners h k v ov s1)))
                 = filter (\<lambda>c. fst c = cb) (calls s1)
               \<and> cb \<notin> set (subscribers k (snd (notifyListeners h k v ov s1)))"
      by (rule notifyListeners_silent)
    then show ?thesis using Inr \<open>getState h k s = Inr ov\<close> f by (simp add: setState_def)
  qed
qed

lemma setStates_silent:
  "cb \<notin> set (subscribers k s) \<Longrightarrow>
   filter (\<lambda>c. fst c = cb) (calls (snd (setStates h k vs s))) = filter (\<lambda>c. fst c = cb) (calls s)"
proof (induction vs arbitrary: s)
  case Nil
  then show ?case by simp
next
  case (Cons v vs)
  have 1: "cb \<notin> set (subscribers k (snd (setState h k v s)))"
    and 2: "filter (\<lambda>c. fst c = cb) (calls (snd (setState h k v s))) = filter (\<lambda>c. fst c = cb) (calls s)"
    using setState_silent [OF Cons.prems] by simp_all
  have "snd (setStates h k (v # vs) s) = snd (setStates h k vs (snd (setState h k v s)))"
    by (simp add: split_def)
  then show ?case using Cons.IH [OF 1] 2 by simp
qed

subsection \<open>Quiet subscribers are called once each, in order\<close>

lemma forEach_quiet:
  "\<forall>cb\<in>set cbs. throws (behaviour_of h cb nv ov) = None
      \<and> k \<notin> fst ` set (unsubscribes (behaviour_of h cb nv ov)) \<Longrightarrow>
   set cbs \<subseteq> set (subscribers k s) \<Longrightarrow>
   fst (forEach h k nv ov cbs s) = None
   \<and> calls (snd (forEach h k nv ov cbs s)) = calls s @ map (\<lambda>cb. (cb, nv, ov)) cbs
   \<and> listeners (snd (forEach h k nv ov cbs s)) k = listeners s k
   \<and> state (snd (forEach h k nv ov cbs s)) = state s
   \<and> state_proto (snd (forEach h k nv ov cbs s)) = state_proto s"
proof (induction cbs arbitrary: s)
  case Nil
  then show ?case by simp
next
  case (Cons c cbs)
  obtain r s1 where i: "invoke h nv ov c s = (r, s1)" by (cases "invoke h nv ov c s")
  have s1: "s1 = snd (invoke h nv ov c s)" using i by simp
  have r: "r = None" using i Cons.prems(1) invoke_fields(1) [of h nv ov c s] by simp
  have l: "listeners s1 k = listeners s k"
    using Cons.prems(1) by (simp add: s1 invoke_other)
  then have "subscribers k s1 = subscribers k s" by (simp add: subscribers_def)
  then have sub: "set cbs \<subseteq> set (subscribers k s1)" using Cons.prems(2) by simp
  have q: "\<forall>cb\<in>set cbs. throws (behaviour_of h cb nv ov) = None
             \<and> k \<notin> fst ` set (unsubscribes (behaviour_of h cb nv ov))"
    using Cons.prems(1) by simp
  have "forEach h k nv ov (c # cbs) s = forEach h k nv ov cbs s1"
    using Cons.prems(2) i r by simp
  then show ?case using Cons.IH [OF q sub] l by (simp add: s1)
qed

lemma getState_own_or_creatable:
  "own_or_creatable h k s \<Longrightarrow> \<exists>old. getState h k s = Inr old"
  by (auto simp: own_or_creatable_def getState_def split: option.splits inherited.splits)

lemma assign_own_or_creatable:
  "own_or_creatable h k s \<Longrightarrow> assign h k v s = Inr (s\<lparr>state := (state s)(k \<mapsto> v)\<rparr>)"
  by (auto simp: own_or_creatable_def assign_def split: option.splits inherited.splits)

lemma setState_quiet:
  assumes "own_or_creatable h k s" and "quiet_subscribers h k s" and "getState h k s = Inr old"
  shows "fst (setState h k v s) = None
       \<and> calls (snd (setState h k v s)) = calls s @ map (\<lambda>cb. (cb, v, old)) (subscribers k s)
       \<and> listeners (snd (setState h k v s)) k = listeners s k
       \<and> state (snd (setState h k v s)) = (state s)(k \<mapsto> v)
       \<and> state_proto (snd (setState h k v s)) = state_proto s"
proof -
  let ?s1 = "s\<lparr>state := (state s)(k \<mapsto> v)\<rparr>"
  have a: "assign h k v s = Inr ?s1"
    using assms(1) by (rule assign_own_or_creatable)
  have n: "setState h k v s = notifyListeners h k v old ?s1"
    using a assms(3) by (simp add: setState_def)
  show ?thesis
  proof (cases "listeners s k")
    case None
    then show ?thesis by (simp add: n notifyListeners_def subscribers_def)
  next
    case (Some cbs)
    have q: "\<forall>cb\<in>set cbs. throws (behaviour_of h cb v old) = None
               \<and> k \<notin> fst ` set (unsubscribes (behaviour_of h cb v old))"
      using assms(2) Some by (simp add: quiet_subscribers_def subscribers_def)
    have sub: "set cbs \<subseteq> set (subscribers k ?s1)"
      using Some by (simp add: subscribers_def)
    have "notifyListeners h k v old ?s1 = forEach h k v old cbs ?s1"
      using Some by (simp add: notifyListeners_def)
    then show ?thesis
      using forEach_quiet [OF q sub] Some by (simp add: n subscribers_def)
  qed
qed

lemma setState_keeps:
  assumes "own_or_creatable h k s" and "quiet_subscribers h k s"
  shows "own_or_creatable h k (snd (setState h k v s))
       \<and> quiet_subscribers h k (snd (setState h k v s))
       \<and> getState h k (snd (setState h k v s)) = Inr v
       \<and> subscribers k (snd (setState h k v s)) = subscribers k s"
proof -
  obtain old where old: "getState h k s = Inr old"
    using getState_own_or_creatable [OF assms(1)] by blast
  have f: "listeners (snd (setState h k v s)) k = listeners s k"
    "state (snd (setState h k v s)) = (state s)(k \<mapsto> v)"
    using setState_quiet [OF assms old, of v] by simp_all
  have sub: "subscribers k (snd (setState h k v s)) = subscribers k s"
    using f(1) by (simp add: subscribers_def)
  have "quiet_subscribers h k (snd (setState h k v s))"
    using assms(2) by (simp add: quiet_subscribers_def sub)
  then show ?thesis
    using f(2) sub by (simp add: own_or_creatable_def getState_def)
qed

lemma setStates_quiet:
  "own_or_creatable h k s \<Longrightarrow> quiet_subscribers h k s \<Longrightarrow> getState h k s = Inr old \<Longrightarrow>
   fst (setStates h k vs s) = replicate (length vs) None
   \<and> calls (snd (setStates h k vs s)) =
       calls s @ concat (map (\<lambda>(old, new). map (\<lambda>cb. (cb, new, old)) (subscribers k s))
                             (zip (old # vs) vs))
   \<and> getState h k (snd (setStates h k vs s)) = Inr (last (old # vs))"
proof (induction vs arbitrary: s old)
  case Nil
  then show ?case by simp
next
  case (Cons v vs)
  let ?s1 = "snd (setState h k v s)"
  have k: "own_or_creatable h k ?s1" "quiet_subscribers h k ?s1" "getState h k ?s1 = Inr v"
    "subscribers k ?s1 = subscribers k s"
    using setState_keeps [OF Cons.prems(1,2), of v] by simp_all
  have q: "fst (setState h k v s) = None"
    "calls ?s1 = calls s @ map (\<lambda>cb. (cb, v, old)) (subscribers k s)"
    using setState_quiet [OF Cons.prems, of v] by simp_all
  have "fst (setStates h k (v # vs) s) = fst (setState h k v s) # fst (setStates h k vs ?s1)"
    "snd (setStates h k (v # vs) s) = snd (setStates h k vs ?s1)"
    by (simp_all add: split_def)
  then show ?case
    using Cons.IH [OF k(1) k(2) k(3)] q k(4) by simp
qed

lemma once_each:
  "distinct cbs \<Longrightarrow>
   length (filter (\<lambda>c. fst c = cb) (map (\<lambda>cb. (cb, nv, ov)) cbs)) = (if cb \<in> set cbs then 1 else 0)"
proof -
  have "filter (\<lambda>c. fst c = cb) (map (\<lambda>cb. (cb, nv, ov)) cbs)
          = map (\<lambda>cb. (cb, nv, ov)) (filter (\<lambda>x. x = cb) cbs)"
    by (simp add: filter_map o_def)
  moreover have "distinct cbs \<Longrightarrow> length (filter (\<lambda>x. x = cb) cbs) = (if cb \<in> set cbs then 1 else 0)"
    by (induction cbs) auto
  ultimately show "distinct cbs \<Longrightarrow> ?thesis" by simp
qed

subsection \<open>Subscription order\<close>

lemma subscribers_subscribe:
  "subscribers k (subscribe k cb s)
     = (if cb \<in> set (subscribers k s) then subscribers k s else subscribers k s @ [cb])"
  by (simp add: subscribers_def subscribe_def set_add_def Let_def split: option.splits)

lemma subscribe_fields [simp]:
  "calls (subscribe k cb s) = calls s"
  "state (subscribe k cb s) = state s"
  "state_proto (subscribe k cb s) = state_proto s"
  by (simp_all add: subscribe_def Let_def)

lemma listener_sets_subscribers: "listener_sets s \<Longrightarrow> distinct (subscribers k s)"
  by (auto simp: listener_sets_def subscribers_def split: option.splits)

lemma listener_sets_new: "listener_sets new_StateManager"
  by (simp add: listener_sets_def new_StateManager_def)

lemma listener_sets_subscribe: "listener_sets s \<Longrightarrow> listener_sets (subscribe k cb s)"
  by (auto simp: listener_sets_def subscribe_def set_add_def Let_def split: option.splits if_splits)

lemma listener_sets_unsubscribe: "listener_sets s \<Longrightarrow> listener_sets (unsubscribe k cb s)"
  by (auto simp: listener_sets_def unsubscribe_def set_delete_def distinct_removeAll split: option.splits if_splits)

lemma own_or_creatable_subscribe:
  "own_or_creatable h k' (subscribe k cb s) = own_or_creatable h k' s"
  by (simp add: own_or_creatable_def cong: option.case_cong)

lemma own_or_creatable_new:
  "k \<noteq> ''__proto__'' \<Longrightarrow> own_or_creatable h k new_StateManager"
  by (simp add: own_or_creatable_def new_StateManager_def split: option.splits)

subsection \<open>The claims on the store\<close>

lemma demo_store_fields:
  "listeners demo_store = [''theme'' \<mapsto> [2, 1]]"
  "state demo_store = state new_StateManager"
  "state_proto demo_store = Some ObjectPrototype"
  "calls demo_store = []"
  by (simp_all add: demo_store_def subscribe_def set_add_def Let_def new_StateManager_def)

lemma subscribers_demo_store: "subscribers ''theme'' demo_store = [2, 1]"
  by (simp add: subscribers_def demo_store_fields)

lemma listener_sets_demo_store: "listener_sets demo_store"
  unfolding demo_store_def
  by (intro listener_sets_subscribe listener_sets_new)

lemma theme_new: "state new_StateManager ''theme'' = Some light"
  by (simp add: new_StateManager_def light_def)

lemma getState_demo_store: "getState h ''theme'' demo_store = Inr light"
  by (simp add: getState_def demo_store_fields theme_new)

lemma own_or_creatable_demo_store: "own_or_creatable h ''theme'' demo_store"
  by (simp add: own_or_creatable_def demo_store_fields theme_new)

lemma quiet_subscribers_calm: "quiet_subscribers calm k s"
  by (simp add: quiet_subscribers_def calm_def)


text \<open>
  Claim C5. After \<open>unsubscribe(k, cb)\<close> no run of \<open>setState(k, ...)\<close> invokes \<open>cb\<close>, however
  soon it starts; and unsubscribing a callback that is not subscribed to \<open>k\<close>, or from a
  key that has no listener set, changes nothing.
\<close>

theorem unsubscribe_silences:
  "filter (\<lambda>c. fst c = cb) (calls (snd (setStates h k vs (unsubscribe k cb s))))
     = filter (\<lambda>c. fst c = cb) (calls s)
   \<and> (cb \<notin> set (subscribers k s) \<longrightarrow> unsubscribe k cb s = s)
   \<and> (listeners s k = None \<longrightarrow> unsubscribe k cb s = s)"
proof -
  have "cb \<notin> set (subscribers k (unsubscribe k cb s))"
    by (simp add: subscribers_unsubscribe)
  then have "filter (\<lambda>c. fst c = cb) (calls (snd (setStates h k vs (unsubscribe k cb s))))
     = filter (\<lambda>c. fst c = cb) (calls (unsubscribe k cb s))"
    by (rule setStates_silent)
  moreover have "listeners s k = None \<longrightarrow> unsubscribe k cb s = s"
    by (simp add: unsubscribe_def)
  ultimately show ?thesis by (simp add: unsubscribe_absent)
qed



theorem unsubscribe_silences_witness:
  "7 \<notin> set (subscribers ''theme'' demo_store)
   \<and> unsubscribe ''theme'' 7 demo_store = demo_store
   \<and> listeners demo_store ''user'' = None
   \<and> unsubscribe ''user'' 1 demo_store = demo_store
   \<and> filter (\<lambda>c. fst c = 2)
        (calls (snd (setStates rowdy ''theme'' [dark] (unsubscribe ''theme'' 2 demo_store)))) = []"
proof -
  have l: "listeners demo_store ''user'' = None"
    by (simp add: demo_store_fields)
  show ?thesis
    using unsubscribe_silences [of 7 rowdy "''theme''" "[]" demo_store]
      unsubscribe_silences [of 1 rowdy "''user''" "[]" demo_store]
      unsubscribe_silences [of 2 rowdy "''theme''" "[dark]" demo_store]
    by (simp add: subscribers_demo_store demo_store_fields l)
qed

section \<open>The invariants hold in every state\<close>

lemma timeout_of_small: "0 \<le> d \<Longrightarrow> d < 2 ^ 31 \<Longrightarrow> timeout_of d = nat d"
  by (simp add: timeout_of_def ToInt32_def)

lemma timeout_of_le: "0 \<le> d \<Longrightarrow> timeout_of d \<le> nat d"
proof -
  assume d: "0 \<le> d"
  have "(d + 2 ^ 31) mod 2 ^ 32 \<le> d + 2 ^ 31"
    using d by (intro zmod_le_nonneg_dividend) simp
  then have "ToInt32 d \<le> d" by (simp add: ToInt32_def)
  then have "nat (ToInt32 d) \<le> nat d" by (rule nat_mono)
  then show ?thesis by (simp add: timeout_of_def)
qed

lemma timeout_of_literals [simp]:
  "timeout_of 100 = 100" "timeout_of 300 = 300" "timeout_of 5000 = 5000"
  "timeout_of 30000 = 30000"
  by (simp_all add: timeout_of_def ToInt32_def)

lemma timeout_of_reconnect:
  assumes "a < maxReconnectAttempts"
  shows "timeout_of (int (reconnectDelay * 2 ^ a)) = reconnectDelay * 2 ^ a"
proof -
  have "a \<le> 4" using assms by (simp add: maxReconnectAttempts_def)
  then have "(2::nat) ^ a \<le> 2 ^ 4" by (intro power_increasing) simp_all
  then have "reconnectDelay * 2 ^ a \<le> 16000" by (simp add: reconnectDelay_def)
  then have "int (reconnectDelay * 2 ^ a) \<le> int 16000" by (simp only: of_nat_le_iff)
  then have "int (reconnectDelay * 2 ^ a) < 2 ^ 31" by simp
  then have "timeout_of (int (reconnectDelay * 2 ^ a)) = nat (int (reconnectDelay * 2 ^ a))"
    by (intro timeout_of_small) simp_all
  then show ?thesis by (simp only: nat_int)
qed

lemmas timer_defs = setTimeout_def setInterval_def register_def clearInterval_def

lemmas show_defs = show_notification_def generateUUID_def createNotification_def appendChild_def
  timer_defs Let_def

lemma show_notification_eq:
  "show_notification m ty d s =
     (rng s (rng_ix s),
      s\<lparr>rng_ix := Suc (rng_ix s),
        elements := (elements s)(next_element s \<mapsto>
            \<lparr>data_id = rng s (rng_ix s), severity = ty, body = sanitizeHTML m, show_class = False\<rparr>),
        next_element := Suc (next_element s),
        container := removeAll (next_element s) (container s) @ [next_element s],
        notifications := notifications s @ [\<lparr>nid = rng s (rng_ix s), element = next_element s\<rparr>],
        timers := timers s @ show_timers (next_element s) (rng s (rng_ix s)) d s,
        scheduled := scheduled s @ show_timers (next_element s) (rng s (rng_ix s)) d s,
        next_timer := next_timer s + length (show_timers (next_element s) (rng s (rng_ix s)) d s)\<rparr>)"
  by (simp add: show_defs show_timers_def)


lemma quiet_refl: "quiet s s"
  by (simp add: quiet_def)

lemma quiet_trans:
  assumes "quiet s s'" and "quiet s' s''"
  shows "quiet s s''"
proof -
  from assms(1) obtain n1 where n1: "timers s' = timers s @ n1" "distinct (map timer_id n1)"
    "\<forall>t\<in>set n1. now s \<le> due t \<and> action t \<noteq> Heartbeat \<and> action t \<noteq> Reconnect \<and> \<not> repeating t \<and>
                       next_timer s \<le> timer_id t \<and> timer_id t < next_timer s'"
    unfolding quiet_def by blast
  from assms(2) obtain n2 where n2: "timers s'' = timers s' @ n2" "distinct (map timer_id n2)"
    "\<forall>t\<in>set n2. now s' \<le> due t \<and> action t \<noteq> Heartbeat \<and> action t \<noteq> Reconnect \<and> \<not> repeating t \<and>
                       next_timer s' \<le> timer_id t \<and> timer_id t < next_timer s''"
    unfolding quiet_def by blast
  have le: "next_timer s \<le> next_timer s'" "next_timer s' \<le> next_timer s''" "now s' = now s"
    using assms by (simp_all add: quiet_def)
  have a: "timers s'' = timers s @ (n1 @ n2)" using n1 n2 by simp
  have b: "distinct (map timer_id (n1 @ n2))"
    using n1(2,3) n2(2,3) by fastforce
  have c: "\<forall>t\<in>set (n1 @ n2). now s \<le> due t \<and> action t \<noteq> Heartbeat \<and> action t \<noteq> Reconnect \<and> \<not> repeating t \<and>
                       next_timer s \<le> timer_id t \<and> timer_id t < next_timer s''"
    using n1(3) n2(3) le by fastforce
  have d: "\<exists>new. timers s'' = timers s @ new \<and> distinct (map timer_id new) \<and>
         (\<forall>t\<in>set new. now s \<le> due t \<and> action t \<noteq> Heartbeat \<and> action t \<noteq> Reconnect \<and> \<not> repeating t \<and>
                       next_timer s \<le> timer_id t \<and> timer_id t < next_timer s'')"
    using a b c by blast
  have e: "now s'' = now s" "ws s'' = ws s" "heartbeatInterval s'' = heartbeatInterval s"
      "reconnectAttempts s'' = reconnectAttempts s" "wire s'' = wire s"
      "next_timer s \<le> next_timer s''"
    using assms by (simp_all add: quiet_def)
  show ?thesis
    unfolding quiet_def using d e by simp
qed

lemma tinv_quiet:
  assumes "tinv s" and "quiet s s'"
  shows "tinv s'"
proof -
  from assms(2) obtain new where tm: "timers s' = timers s @ new"
    and dn: "distinct (map timer_id new)"
    and nw: "\<And>t. t \<in> set new \<Longrightarrow> now s \<le> due t \<and> action t \<noteq> Heartbeat \<and>
               action t \<noteq> Reconnect \<and> \<not> repeating t \<and>
               next_timer s \<le> timer_id t \<and> timer_id t < next_timer s'"
    unfolding quiet_def by blast
  have eqs: "now s' = now s" "ws s' = ws s" "heartbeatInterval s' = heartbeatInterval s"
    "next_timer s \<le> next_timer s'"
    using assms(2) by (simp_all add: quiet_def)
  have c: "clock_ok s" and ti: "timer_ids_ok s" and h: "heartbeat_ok s" and so: "socket_ok s"
    using assms(1) by (simp_all add: tinv_def)
  have mem: "t \<in> set (timers s') \<longleftrightarrow> t \<in> set (timers s) \<or> t \<in> set new" for t
    by (simp add: tm)
  have 1: "clock_ok s'"
    unfolding clock_ok_def using c nw mem eqs(1) unfolding clock_ok_def by metis
  have old_lt: "timer_id t < next_timer s" if "t \<in> set (timers s)" for t
    using ti that by (simp add: timer_ids_ok_def)
  have "set (map timer_id (timers s)) \<inter> set (map timer_id new) = {}"
  proof -
    have "x < next_timer s" if "x \<in> set (map timer_id (timers s))" for x
      using that old_lt by auto
    moreover have "next_timer s \<le> x" if "x \<in> set (map timer_id new)" for x
      using that nw by auto
    ultimately show ?thesis by fastforce
  qed
  then have "distinct (map timer_id (timers s'))"
    using ti dn by (simp add: tm timer_ids_ok_def)
  moreover have "\<forall>t\<in>set (timers s'). timer_id t < next_timer s'"
  proof
    fix t assume "t \<in> set (timers s')"
    then consider "t \<in> set (timers s)" | "t \<in> set new" using mem by blast
    then show "timer_id t < next_timer s'"
    proof cases
      case 1
      then show ?thesis using old_lt eqs(4) by fastforce
    next
      case 2
      then show ?thesis using nw by blast
    qed
  qed
  ultimately have 2: "timer_ids_ok s'"
    by (simp add: timer_ids_ok_def)
  have hb_old: "t \<in> set (timers s)" if "t \<in> set (timers s')" "action t = Heartbeat \<or> repeating t \<or> action t = Reconnect" for t
    using that mem nw by blast
  have 3: "heartbeat_ok s'"
    unfolding heartbeat_ok_def
  proof (intro conjI ballI allI impI)
    fix t assume "t \<in> set (timers s')" "action t = Heartbeat"
    then have "t \<in> set (timers s)" using hb_old by blast
    then show "heartbeatInterval s' = Some (timer_id t)"
      using h \<open>action t = Heartbeat\<close> unfolding heartbeat_ok_def eqs(3) by blast
  next
    fix t assume "t \<in> set (timers s')" "repeating t"
    then have "t \<in> set (timers s)" using hb_old by blast
    then show "action t = Heartbeat"
      using h \<open>repeating t\<close> unfolding heartbeat_ok_def by blast
  next
    fix i assume "heartbeatInterval s' = Some i"
    then have i: "heartbeatInterval s = Some i" by (simp add: eqs)
    then have "i < next_timer s" using h unfolding heartbeat_ok_def by blast
    then show "i < next_timer s'" using eqs(4) by simp
  next
    fix i t assume "heartbeatInterval s' = Some i" "t \<in> set (timers s')" "timer_id t = i"
    then have i: "heartbeatInterval s = Some i" by (simp add: eqs)
    then have lt: "i < next_timer s" using h unfolding heartbeat_ok_def by blast
    have "t \<in> set (timers s)"
    proof (rule ccontr)
      assume "t \<notin> set (timers s)"
      then have "t \<in> set new" using \<open>t \<in> set (timers s')\<close> mem by blast
      then have "next_timer s \<le> timer_id t" using nw by blast
      then show False using lt \<open>timer_id t = i\<close> by simp
    qed
    then show "action t = Heartbeat"
      using h i \<open>timer_id t = i\<close> unfolding heartbeat_ok_def by blast
  qed
  have 4: "socket_ok s'"
    unfolding socket_ok_def
  proof (intro conjI)
    show "(\<exists>t\<in>set (timers s'). action t = Heartbeat) \<longrightarrow> ws s' = Some OPEN \<or> ws s' = Some CLOSING"
      using so hb_old unfolding socket_ok_def eqs(2) by blast
    show "(\<exists>t\<in>set (timers s'). action t = Reconnect) \<longrightarrow> ws s' = None \<or> ws s' = Some CLOSED"
      using so hb_old unfolding socket_ok_def eqs(2) by blast
    show "\<forall>t\<in>set (timers s'). \<forall>u\<in>set (timers s').
            action t = Reconnect \<longrightarrow> action u = Reconnect \<longrightarrow> t = u"
      using so hb_old unfolding socket_ok_def by blast
  qed
  show ?thesis using 1 2 3 4 by (simp add: tinv_def)
qed

lemma quiet_show: "quiet s (snd (show_notification m ty d s))"
  unfolding quiet_def
  by (auto simp: show_notification_eq show_timers_def)

lemma dom_ok_show: "dom_ok s \<Longrightarrow> dom_ok (snd (show_notification m ty d s))"
  by (auto simp: dom_ok_def show_notification_eq less_Suc_eq)

lemma remove_notification_eq:
  "remove_notification i s =
     (case find (\<lambda>n. nid n = i) (notifications s) of
        None \<Rightarrow> s
      | Some n \<Rightarrow>
          s\<lparr>elements := (elements s)(element n :=
                map_option (\<lambda>t. t\<lparr>show_class := False\<rparr>) (elements s (element n))),
            timers := timers s @ [\<lparr>timer_id = next_timer s, due = now s + 300, delay = 300,
                                    action = FinishRemove (element n) i, repeating = False\<rparr>],
            scheduled := scheduled s @ [\<lparr>timer_id = next_timer s, due = now s + 300, delay = 300,
                                    action = FinishRemove (element n) i, repeating = False\<rparr>],
            next_timer := Suc (next_timer s)\<rparr>)"
  by (simp add: remove_notification_def timer_defs classList_set_def split: option.splits)

lemma finish_remove_eq:
  "finish_remove el i s =
     s\<lparr>container := removeAll el (container s),
       dom_removals := (if el \<in> set (container s) then dom_removals s @ [el] else dom_removals s),
       notifications := filter (\<lambda>n. nid n \<noteq> i) (notifications s)\<rparr>"
  by (simp add: finish_remove_def parentNode_def removeChild_def)

lemma quiet_remove: "quiet s (remove_notification i s)"
  unfolding quiet_def
  by (auto simp: remove_notification_eq split: option.splits)

lemma dom_ok_remove: "dom_ok s \<Longrightarrow> dom_ok (remove_notification i s)"
  by (auto simp: dom_ok_def remove_notification_eq split: option.splits)

lemma quiet_finish: "quiet s (finish_remove el i s)"
  unfolding quiet_def
  by (auto simp: finish_remove_eq)

lemma dom_ok_finish: "dom_ok s \<Longrightarrow> dom_ok (finish_remove el i s)"
  by (auto simp: dom_ok_def finish_remove_eq)

lemma quiet_foldl_remove: "quiet s (foldl (\<lambda>s n. remove_notification (nid n) s) s ns)"
proof (induction ns arbitrary: s)
  case Nil
  show ?case by (simp add: quiet_refl)
next
  case (Cons n ns)
  show ?case
    using quiet_trans [OF quiet_remove Cons.IH] by simp
qed

lemma dom_ok_foldl_remove:
  "dom_ok s \<Longrightarrow> dom_ok (foldl (\<lambda>s n. remove_notification (nid n) s) s ns)"
  by (induction ns arbitrary: s) (simp_all add: dom_ok_remove)

lemma quiet_clear: "quiet s (clear_notifications s)"
  by (simp add: clear_notifications_def quiet_foldl_remove)

lemma dom_ok_clear: "dom_ok s \<Longrightarrow> dom_ok (clear_notifications s)"
  by (simp add: clear_notifications_def dom_ok_foldl_remove)

lemma tinv_cong:
  "now s' = now s \<Longrightarrow> timers s' = timers s \<Longrightarrow> next_timer s' = next_timer s \<Longrightarrow>
   heartbeatInterval s' = heartbeatInterval s \<Longrightarrow> ws s' = ws s \<Longrightarrow> tinv s' = tinv s"
  by (simp add: tinv_def clock_ok_def timer_ids_ok_def heartbeat_ok_def socket_ok_def)

lemma dom_ok_cong:
  "notifications s' = notifications s \<Longrightarrow> next_element s' = next_element s \<Longrightarrow>
   container s' = container s \<Longrightarrow> dom_removals s' = dom_removals s \<Longrightarrow> dom_ok s' = dom_ok s"
  by (simp add: dom_ok_def)

lemma startHeartbeat_eq:
  "startHeartbeat s =
     s\<lparr>timers := timers s @ [\<lparr>timer_id = next_timer s, due = now s + 30000, delay = 30000,
                               action = Heartbeat, repeating = True\<rparr>],
       scheduled := scheduled s @ [\<lparr>timer_id = next_timer s, due = now s + 30000, delay = 30000,
                               action = Heartbeat, repeating = True\<rparr>],
       next_timer := Suc (next_timer s),
       heartbeatInterval := Some (next_timer s)\<rparr>"
  by (simp add: startHeartbeat_def timer_defs)

lemma stopHeartbeat_eq:
  "stopHeartbeat s =
     (case heartbeatInterval s of
        None \<Rightarrow> s
      | Some i \<Rightarrow> s\<lparr>timers := filter (\<lambda>t. timer_id t \<noteq> i) (timers s), heartbeatInterval := None\<rparr>)"
  by (simp add: stopHeartbeat_def timer_defs split: option.splits)

lemma handleReconnect_eq:
  "handleReconnect s =
     (if reconnectAttempts s < maxReconnectAttempts
      then s\<lparr>timers := timers s @ [\<lparr>timer_id = next_timer s,
                 due = now s + reconnectDelay * 2 ^ reconnectAttempts s,
                 delay = reconnectDelay * 2 ^ reconnectAttempts s,
                 action = Reconnect, repeating = False\<rparr>],
             scheduled := scheduled s @ [\<lparr>timer_id = next_timer s,
                 due = now s + reconnectDelay * 2 ^ reconnectAttempts s,
                 delay = reconnectDelay * 2 ^ reconnectAttempts s,
                 action = Reconnect, repeating = False\<rparr>],
             next_timer := Suc (next_timer s)\<rparr>
      else snd (show_notification ''Connection lost. Please refresh the page.'' ''danger'' 0 s))"
  by (simp add: handleReconnect_def timer_defs timeout_of_reconnect del: of_nat_mult of_nat_power)

text \<open>No heartbeat is pending once \<open>stopHeartbeat\<close> has run.\<close>

lemma stopHeartbeat_stops:
  assumes "heartbeat_ok s"
  shows "heartbeatInterval (stopHeartbeat s) = None"
    and "\<forall>t\<in>set (timers (stopHeartbeat s)). action t \<noteq> Heartbeat"
proof -
  show "heartbeatInterval (stopHeartbeat s) = None"
    by (simp add: stopHeartbeat_eq split: option.splits)
  show "\<forall>t\<in>set (timers (stopHeartbeat s)). action t \<noteq> Heartbeat"
  proof (cases "heartbeatInterval s")
    case None
    then show ?thesis using assms by (simp add: stopHeartbeat_eq heartbeat_ok_def)
  next
    case (Some i)
    have "timer_id t = i" if "t \<in> set (timers s)" "action t = Heartbeat" for t
    proof -
      have "heartbeatInterval s = Some (timer_id t)"
        using assms that unfolding heartbeat_ok_def by blast
      then show ?thesis using Some by simp
    qed
    then show ?thesis using Some by (simp add: stopHeartbeat_eq) blast
  qed
qed

subsection \<open>The timer that fires next\<close>

lemma earliest_None: "earliest ts = None \<longleftrightarrow> ts = []"
  by (induction ts) (auto split: option.splits)

lemma earliest_mem: "earliest ts = Some t \<Longrightarrow> t \<in> set ts"
  by (induction ts arbitrary: t) (auto split: option.splits if_splits)

lemma earliest_le: "earliest ts = Some t \<Longrightarrow> u \<in> set ts \<Longrightarrow> due t \<le> due u"
proof (induction ts arbitrary: t u)
  case Nil
  then show ?case by simp
next
  case (Cons a ts)
  show ?case
  proof (cases "earliest ts")
    case None
    then have "ts = []" by (simp add: earliest_None)
    then show ?thesis using Cons.prems by simp
  next
    case (Some m)
    have m: "\<And>v. v \<in> set ts \<Longrightarrow> due m \<le> due v"
      using Cons.IH [OF Some] by blast
    show ?thesis
    proof (cases "due a \<le> due m")
      case True
      then have "t = a" using Cons.prems(1) Some by simp
      then show ?thesis using Cons.prems(2) m True by (auto intro: order_trans)
    next
      case False
      then have "t = m" using Cons.prems(1) Some by simp
      then show ?thesis using Cons.prems(2) m False by auto
    qed
  qed
qed

lemma dequeue_fields [simp]:
  "now (dequeue t s) = max (now s) (due t)"
  "next_timer (dequeue t s) = next_timer s"
  "heartbeatInterval (dequeue t s) = heartbeatInterval s"
  "ws (dequeue t s) = ws s"
  "reconnectAttempts (dequeue t s) = reconnectAttempts s"
  "wire (dequeue t s) = wire s"
  "notifications (dequeue t s) = notifications s"
  "next_element (dequeue t s) = next_element s"
  "container (dequeue t s) = container s"
  "dom_removals (dequeue t s) = dom_removals s"
  "uncaught (dequeue t s) = uncaught s"
  "scheduled (dequeue t s) = scheduled s"
  "rng (dequeue t s) = rng s"
  "rng_ix (dequeue t s) = rng_ix s"
  "elements (dequeue t s) = elements s"
  by (simp_all add: dequeue_def Let_def)

text \<open>
  Every timer left in the queue after a timer fired was in the queue before, with its
  handle, its action and its kind, and is not due before the new time.
\<close>

lemma dequeue_timers:
  assumes "clock_ok s" and "earliest (timers s) = Some t" and "u \<in> set (timers (dequeue t s))"
  shows "\<exists>v\<in>set (timers s). timer_id u = timer_id v \<and> action u = action v \<and>
           repeating u = repeating v \<and> now (dequeue t s) \<le> due u \<and> (\<not> repeating t \<longrightarrow> u = v)"
proof -
  have t: "t \<in> set (timers s)" using assms(2) by (rule earliest_mem)
  have nt: "now s \<le> due t" using assms(1) t by (simp add: clock_ok_def)
  then have n: "now (dequeue t s) = due t" by (simp add: max_def)
  show ?thesis
  proof (cases "repeating t")
    case False
    then have "u \<in> set (remove1 t (timers s))"
      using assms(3) by (simp add: dequeue_def Let_def)
    then have u: "u \<in> set (timers s)" by (meson set_remove1_subset subsetD)
    then have "due t \<le> due u" using assms(2) earliest_le by blast
    then show ?thesis using u n by auto
  next
    case True
    then have "u \<in> (\<lambda>u. if u = t then u\<lparr>due := due t + delay t\<rparr> else u) ` set (timers s)"
      using assms(3) nt by (simp add: dequeue_def Let_def max_def)
    then obtain v where v: "v \<in> set (timers s)"
      and uv: "u = (if v = t then v\<lparr>due := due t + delay t\<rparr> else v)"
      by blast
    have "due t \<le> due v" using assms(2) v earliest_le by blast
    then have "now (dequeue t s) \<le> due u" using uv n by simp
    moreover have "timer_id u = timer_id v" "action u = action v" "repeating u = repeating v"
      using uv by simp_all
    ultimately show ?thesis using v True by blast
  qed
qed

lemma dequeue_timers':
  assumes "clock_ok s" and "earliest (timers s) = Some t" and "u \<in> set (timers (dequeue t s))"
  shows "\<exists>v\<in>set (timers s).
           u = (if repeating t \<and> v = t then v\<lparr>due := due t + delay t\<rparr> else v)"
proof -
  have t: "t \<in> set (timers s)" using assms(2) by (rule earliest_mem)
  have nt: "now s \<le> due t" using assms(1) t by (simp add: clock_ok_def)
  show ?thesis
  proof (cases "repeating t")
    case False
    then have "u \<in> set (remove1 t (timers s))"
      using assms(3) by (simp add: dequeue_def Let_def)
    then have u: "u \<in> set (timers s)" by (meson set_remove1_subset subsetD)
    then show ?thesis using False by auto
  next
    case True
    then have "u \<in> (\<lambda>u. if u = t then u\<lparr>due := due t + delay t\<rparr> else u) ` set (timers s)"
      using assms(3) nt by (simp add: dequeue_def Let_def max_def)
    then show ?thesis using True by auto
  qed
qed

lemma distinct_timers: "timer_ids_ok s \<Longrightarrow> distinct (timers s)"
  by (simp add: timer_ids_ok_def distinct_map)

lemma dequeue_gone:
  assumes "timer_ids_ok s" and "\<not> repeating t"
  shows "t \<notin> set (timers (dequeue t s))"
  using distinct_timers [OF assms(1)] assms(2)
  by (simp add: dequeue_def Let_def)

lemma dequeue_ids:
  assumes "timer_ids_ok s"
  shows "distinct (map timer_id (timers (dequeue t s)))"
proof (cases "repeating t")
  case False
  have "distinct (map timer_id (timers s))" using assms by (simp add: timer_ids_ok_def)
  then have "distinct (map timer_id (remove1 t (timers s)))"
    by (simp add: distinct_map inj_on_def)
  then show ?thesis using False by (simp add: dequeue_def Let_def)
next
  case True
  have m: "map timer_id (map (\<lambda>u. if u = t then u\<lparr>due := x\<rparr> else u) ts) = map timer_id ts" for x ts
    by (induction ts) simp_all
  have "timers (dequeue t s)
      = map (\<lambda>u. if u = t then u\<lparr>due := max (now s) (due t) + delay t\<rparr> else u) (timers s)"
    using True by (simp add: dequeue_def Let_def)
  then have "map timer_id (timers (dequeue t s)) = map timer_id (timers s)"
    by (simp only: m)
  then show ?thesis using assms by (simp only: timer_ids_ok_def)
qed

lemma tinv_dequeue:
  assumes "tinv s" and e: "earliest (timers s) = Some t"
  shows "tinv (dequeue t s)"
proof -
  have c: "clock_ok s" and ti: "timer_ids_ok s" and h: "heartbeat_ok s" and so: "socket_ok s"
    using assms(1) by (simp_all add: tinv_def)
  note old = dequeue_timers [OF c e]
  note old' = dequeue_timers' [OF c e]
  have 1: "clock_ok (dequeue t s)"
    unfolding clock_ok_def using old by blast
  have "\<forall>u\<in>set (timers (dequeue t s)). timer_id u < next_timer (dequeue t s)"
  proof
    fix u assume "u \<in> set (timers (dequeue t s))"
    then obtain v where "v \<in> set (timers s)" "timer_id u = timer_id v" using old by blast
    then show "timer_id u < next_timer (dequeue t s)"
      using ti by (simp add: timer_ids_ok_def)
  qed
  then have 2: "timer_ids_ok (dequeue t s)"
    using dequeue_ids [OF ti] by (simp add: timer_ids_ok_def)
  have 3: "heartbeat_ok (dequeue t s)"
    unfolding heartbeat_ok_def
  proof (intro conjI ballI allI impI)
    fix u assume u: "u \<in> set (timers (dequeue t s))" "action u = Heartbeat"
    then obtain v where "v \<in> set (timers s)" "timer_id u = timer_id v" "action u = action v"
      using old by blast
    then show "heartbeatInterval (dequeue t s) = Some (timer_id u)"
      using h u(2) unfolding heartbeat_ok_def by simp
  next
    fix u assume u: "u \<in> set (timers (dequeue t s))" "repeating u"
    then obtain v where "v \<in> set (timers s)" "repeating u = repeating v" "action u = action v"
      using old by blast
    then show "action u = Heartbeat"
      using h u(2) unfolding heartbeat_ok_def by simp
  next
    fix i assume "heartbeatInterval (dequeue t s) = Some i"
    then show "i < next_timer (dequeue t s)"
      using h unfolding heartbeat_ok_def by simp
  next
    fix i u assume i: "heartbeatInterval (dequeue t s) = Some i"
      and u: "u \<in> set (timers (dequeue t s))" "timer_id u = i"
    then obtain v where v: "v \<in> set (timers s)" "timer_id u = timer_id v" "action u = action v"
      using old by blast
    have hi: "heartbeatInterval s = Some i" using i by simp
    have "timer_id v = i" using v(2) u(2) by simp
    then have "action v = Heartbeat"
      using h hi v(1) unfolding heartbeat_ok_def by blast
    then show "action u = Heartbeat" using v(3) by simp
  qed
  have 4: "socket_ok (dequeue t s)"
    unfolding socket_ok_def
  proof (intro conjI ballI impI)
    assume "\<exists>u\<in>set (timers (dequeue t s)). action u = Heartbeat"
    then obtain u where u: "u \<in> set (timers (dequeue t s))" "action u = Heartbeat"
      by blast
    then obtain v where "v \<in> set (timers s)" "action u = action v"
      using old by blast
    with u(2) have "\<exists>v\<in>set (timers s). action v = Heartbeat" by auto
    then show "ws (dequeue t s) = Some OPEN \<or> ws (dequeue t s) = Some CLOSING"
      using so unfolding socket_ok_def by simp
  next
    assume "\<exists>u\<in>set (timers (dequeue t s)). action u = Reconnect"
    then obtain u where u: "u \<in> set (timers (dequeue t s))" "action u = Reconnect"
      by blast
    then obtain v where "v \<in> set (timers s)" "action u = action v"
      using old by blast
    with u(2) have "\<exists>v\<in>set (timers s). action v = Reconnect" by auto
    then show "ws (dequeue t s) = None \<or> ws (dequeue t s) = Some CLOSED"
      using so unfolding socket_ok_def by simp
  next
    fix u u' assume u: "u \<in> set (timers (dequeue t s))" "action u = Reconnect"
      and u': "u' \<in> set (timers (dequeue t s))" "action u' = Reconnect"
    obtain v where v: "v \<in> set (timers s)"
        "u = (if repeating t \<and> v = t then v\<lparr>due := due t + delay t\<rparr> else v)"
      using old' u(1) by blast
    obtain v' where v': "v' \<in> set (timers s)"
        "u' = (if repeating t \<and> v' = t then v'\<lparr>due := due t + delay t\<rparr> else v')"
      using old' u'(1) by blast
    have "action v = Reconnect" "action v' = Reconnect"
      using u(2) u'(2) v(2) v'(2) by (simp_all split: if_splits)
    then have "v = v'" using so v(1) v'(1) unfolding socket_ok_def by blast
    then show "u = u'" using v(2) v'(2) by simp
  qed
  show ?thesis using 1 2 3 4 by (simp add: tinv_def)
qed

lemma log_fields [simp]:
  "now (log e s) = now s" "timers (log e s) = timers s" "next_timer (log e s) = next_timer s"
  "heartbeatInterval (log e s) = heartbeatInterval s" "ws (log e s) = ws s"
  "reconnectAttempts (log e s) = reconnectAttempts s" "wire (log e s) = wire s"
  "notifications (log e s) = notifications s" "next_element (log e s) = next_element s"
  "container (log e s) = container s" "dom_removals (log e s) = dom_removals s"
  "uncaught (log e s) = uncaught s" "scheduled (log e s) = scheduled s"
  "rng (log e s) = rng s" "rng_ix (log e s) = rng_ix s" "elements (log e s) = elements s"
  by (simp_all add: log_def)

lemma send_fields [simp]:
  "now (send f s) = now s" "timers (send f s) = timers s" "next_timer (send f s) = next_timer s"
  "heartbeatInterval (send f s) = heartbeatInterval s" "ws (send f s) = ws s"
  "reconnectAttempts (send f s) = reconnectAttempts s"
  "notifications (send f s) = notifications s" "next_element (send f s) = next_element s"
  "container (send f s) = container s" "dom_removals (send f s) = dom_removals s"
  "uncaught (send f s) = uncaught s" "scheduled (send f s) = scheduled s"
  "rng (send f s) = rng s" "rng_ix (send f s) = rng_ix s" "elements (send f s) = elements s"
  by (simp_all add: send_def)

lemma classList_set_fields [simp]:
  "now (classList_set el b s) = now s" "timers (classList_set el b s) = timers s"
  "next_timer (classList_set el b s) = next_timer s"
  "heartbeatInterval (classList_set el b s) = heartbeatInterval s"
  "ws (classList_set el b s) = ws s"
  "reconnectAttempts (classList_set el b s) = reconnectAttempts s"
  "wire (classList_set el b s) = wire s"
  "notifications (classList_set el b s) = notifications s"
  "next_element (classList_set el b s) = next_element s"
  "container (classList_set el b s) = container s"
  "dom_removals (classList_set el b s) = dom_removals s"
  "uncaught (classList_set el b s) = uncaught s" "scheduled (classList_set el b s) = scheduled s"
  "rng (classList_set el b s) = rng s" "rng_ix (classList_set el b s) = rng_ix s"
  by (simp_all add: classList_set_def)

lemma tinv_log [simp]: "tinv (log e s) = tinv s"
  by (rule tinv_cong) simp_all

lemma tinv_send [simp]: "tinv (send f s) = tinv s"
  by (rule tinv_cong) simp_all

lemma tinv_classList_set [simp]: "tinv (classList_set el b s) = tinv s"
  by (rule tinv_cong) simp_all

lemma dom_ok_log [simp]: "dom_ok (log e s) = dom_ok s"
  by (rule dom_ok_cong) simp_all

lemma dom_ok_send [simp]: "dom_ok (send f s) = dom_ok s"
  by (rule dom_ok_cong) simp_all

lemma dom_ok_classList_set [simp]: "dom_ok (classList_set el b s) = dom_ok s"
  by (rule dom_ok_cong) simp_all

lemma dom_ok_dequeue [simp]: "dom_ok (dequeue t s) = dom_ok s"
  by (rule dom_ok_cong) simp_all

lemma clock_ok_cong:
  "now s' = now s \<Longrightarrow> timers s' = timers s \<Longrightarrow> clock_ok s' = clock_ok s"
  by (simp add: clock_ok_def)

lemma timer_ids_ok_cong:
  "timers s' = timers s \<Longrightarrow> next_timer s' = next_timer s \<Longrightarrow> timer_ids_ok s' = timer_ids_ok s"
  by (simp add: timer_ids_ok_def)

lemma heartbeat_ok_cong:
  "timers s' = timers s \<Longrightarrow> next_timer s' = next_timer s \<Longrightarrow>
   heartbeatInterval s' = heartbeatInterval s \<Longrightarrow> heartbeat_ok s' = heartbeat_ok s"
  by (simp add: heartbeat_ok_def)

lemma parts_log [simp]:
  "clock_ok (log e s) = clock_ok s" "timer_ids_ok (log e s) = timer_ids_ok s"
  "heartbeat_ok (log e s) = heartbeat_ok s"
  by (rule clock_ok_cong timer_ids_ok_cong heartbeat_ok_cong; simp)+

lemma parts_ws [simp]:
  "clock_ok (s\<lparr>ws := x\<rparr>) = clock_ok s" "timer_ids_ok (s\<lparr>ws := x\<rparr>) = timer_ids_ok s"
  "heartbeat_ok (s\<lparr>ws := x\<rparr>) = heartbeat_ok s"
  by (rule clock_ok_cong timer_ids_ok_cong heartbeat_ok_cong; simp)+

lemma tinv_parts: "tinv s \<Longrightarrow> clock_ok s \<and> timer_ids_ok s \<and> heartbeat_ok s \<and> socket_ok s"
  by (simp add: tinv_def)

lemma tinv_register:
  assumes "tinv s"
    and id: "timer_id t = next_timer s" and due: "now s \<le> due t"
    and hb: "action t = Heartbeat \<Longrightarrow> (\<forall>u\<in>set (timers s). action u \<noteq> Heartbeat) \<and>
               (ws s = Some OPEN \<or> ws s = Some CLOSING) \<and> hi = Some (next_timer s)"
    and nhb: "action t \<noteq> Heartbeat \<Longrightarrow> hi = heartbeatInterval s \<and> \<not> repeating t"
    and rc: "action t = Reconnect \<Longrightarrow> (\<forall>u\<in>set (timers s). action u \<noteq> Reconnect) \<and>
               (ws s = None \<or> ws s = Some CLOSED)"
  shows "tinv (s\<lparr>timers := timers s @ [t], scheduled := sch, next_timer := Suc (next_timer s),
                 heartbeatInterval := hi\<rparr>)"
    (is "tinv ?s'")
proof -
  have c: "clock_ok s" and ti: "timer_ids_ok s" and h: "heartbeat_ok s" and so: "socket_ok s"
    using assms(1) by (simp_all add: tinv_def)
  have mem: "u \<in> set (timers ?s') \<longleftrightarrow> u \<in> set (timers s) \<or> u = t" for u
    by auto
  have old_lt: "timer_id u < next_timer s" if "u \<in> set (timers s)" for u
    using ti that by (simp add: timer_ids_ok_def)
  have t_new: "t \<notin> set (timers s)"
    using old_lt id by fastforce
  have 1: "clock_ok ?s'"
    using c due by (simp add: clock_ok_def)
  have "timer_id t \<notin> timer_id ` set (timers s)"
    using old_lt id by fastforce
  then have 2: "timer_ids_ok ?s'"
    using ti id by (simp add: timer_ids_ok_def less_Suc_eq)
  have 3: "heartbeat_ok ?s'"
    unfolding heartbeat_ok_def
  proof (intro conjI ballI allI impI)
    fix u assume u: "u \<in> set (timers ?s')" "action u = Heartbeat"
    show "heartbeatInterval ?s' = Some (timer_id u)"
    proof (cases "u = t")
      case True
      then show ?thesis using hb u(2) id by simp
    next
      case False
      then have us: "u \<in> set (timers s)" using u(1) by simp
      then have "action t \<noteq> Heartbeat" using hb u(2) by blast
      then have "hi = heartbeatInterval s" using nhb by blast
      moreover have "heartbeatInterval s = Some (timer_id u)"
        using h us u(2) unfolding heartbeat_ok_def by blast
      ultimately show ?thesis by simp
    qed
  next
    fix u assume u: "u \<in> set (timers ?s')" "repeating u"
    show "action u = Heartbeat"
    proof (cases "u = t")
      case True
      then show ?thesis using nhb u(2) by blast
    next
      case False
      then have "u \<in> set (timers s)" using u(1) by simp
      then show ?thesis using h u(2) unfolding heartbeat_ok_def by blast
    qed
  next
    fix i assume i: "heartbeatInterval ?s' = Some i"
    show "i < next_timer ?s'"
    proof (cases "action t = Heartbeat")
      case True
      then show ?thesis using hb i by simp
    next
      case False
      then have "heartbeatInterval s = Some i" using nhb i by simp
      then have "i < next_timer s" using h unfolding heartbeat_ok_def by blast
      then show ?thesis by simp
    qed
  next
    fix i u assume i: "heartbeatInterval ?s' = Some i"
      and u: "u \<in> set (timers ?s')" "timer_id u = i"
    show "action u = Heartbeat"
    proof (cases "action t = Heartbeat")
      case True
      then have "i = next_timer s" using hb i by simp
      then have "u = t" using u old_lt by fastforce
      then show ?thesis using True by simp
    next
      case False
      then have hi: "heartbeatInterval s = Some i" using nhb i by simp
      then have "i < next_timer s" using h unfolding heartbeat_ok_def by blast
      then have "u \<noteq> t" using u(2) id by auto
      then have "u \<in> set (timers s)" using u(1) by simp
      then show ?thesis using h hi u(2) unfolding heartbeat_ok_def by blast
    qed
  qed
  have 4: "socket_ok ?s'"
    unfolding socket_ok_def
  proof (intro conjI ballI impI)
    assume "\<exists>u\<in>set (timers ?s'). action u = Heartbeat"
    then obtain u where u: "u \<in> set (timers ?s')" "action u = Heartbeat" by blast
    have "ws s = Some OPEN \<or> ws s = Some CLOSING"
    proof (cases "u = t")
      case True
      then show ?thesis using hb u(2) by blast
    next
      case False
      then have "u \<in> set (timers s)" using u(1) by simp
      then show ?thesis using so u(2) unfolding socket_ok_def by blast
    qed
    then show "ws ?s' = Some OPEN \<or> ws ?s' = Some CLOSING" by simp
  next
    assume "\<exists>u\<in>set (timers ?s'). action u = Reconnect"
    then obtain u where u: "u \<in> set (timers ?s')" "action u = Reconnect" by blast
    have "ws s = None \<or> ws s = Some CLOSED"
    proof (cases "u = t")
      case True
      then show ?thesis using rc u(2) by blast
    next
      case False
      then have "u \<in> set (timers s)" using u(1) by simp
      then show ?thesis using so u(2) unfolding socket_ok_def by blast
    qed
    then show "ws ?s' = None \<or> ws ?s' = Some CLOSED" by simp
  next
    fix u u' assume u: "u \<in> set (timers ?s')" "action u = Reconnect"
      and u': "u' \<in> set (timers ?s')" "action u' = Reconnect"
    show "u = u'"
    proof (cases "action t = Reconnect")
      case True
      then have "\<forall>v\<in>set (timers s). action v \<noteq> Reconnect" using rc by blast
      then have "u = t" "u' = t" using u u' by auto
      then show ?thesis by simp
    next
      case False
      then have "u \<in> set (timers s)" "u' \<in> set (timers s)" using u u' by auto
      then show ?thesis using so u(2) u'(2) unfolding socket_ok_def by blast
    qed
  qed
  show ?thesis using 1 2 3 4 by (simp add: tinv_def)
qed

lemma tinv_handleReconnect:
  assumes "tinv s" and "ws s = None \<or> ws s = Some CLOSED"
    and "\<forall>u\<in>set (timers s). action u \<noteq> Reconnect"
  shows "tinv (handleReconnect s)"
proof (cases "reconnectAttempts s < maxReconnectAttempts")
  case True
  let ?t = "\<lparr>timer_id = next_timer s, due = now s + reconnectDelay * 2 ^ reconnectAttempts s,
             delay = reconnectDelay * 2 ^ reconnectAttempts s, action = Reconnect,
             repeating = False\<rparr>"
  have "handleReconnect s = s\<lparr>timers := timers s @ [?t], scheduled := scheduled s @ [?t],
            next_timer := Suc (next_timer s), heartbeatInterval := heartbeatInterval s\<rparr>"
    using True by (simp add: handleReconnect_eq)
  moreover have "tinv (s\<lparr>timers := timers s @ [?t], scheduled := scheduled s @ [?t],
            next_timer := Suc (next_timer s), heartbeatInterval := heartbeatInterval s\<rparr>)"
    using assms by (intro tinv_register) simp_all
  ultimately show ?thesis by simp
next
  case False
  then show ?thesis
    using tinv_quiet [OF assms(1) quiet_show] by (simp add: handleReconnect_eq)
qed

lemma tinv_connect:
  assumes "tinv s" and "ws s = None \<or> ws s = Some CLOSED"
    and "\<forall>u\<in>set (timers s). action u \<noteq> Reconnect"
  shows "tinv (connect constructed s)"
proof (cases constructed)
  case True
  have nohb: "\<forall>u\<in>set (timers s). action u \<noteq> Heartbeat"
    using assms(1,2) unfolding tinv_def socket_ok_def by auto
  have "socket_ok (s\<lparr>ws := Some CONNECTING\<rparr>)"
    using assms(1,3) nohb by (simp add: tinv_def socket_ok_def)
  then have "tinv (s\<lparr>ws := Some CONNECTING\<rparr>)"
    using tinv_parts [OF assms(1)] by (simp add: tinv_def)
  then show ?thesis using True by (simp add: connect_def)
next
  case False
  have "tinv (handleReconnect (log (Err ''WebSocket connection failed:'') s))"
    using assms by (intro tinv_handleReconnect) simp_all
  then show ?thesis using False by (simp add: connect_def)
qed

lemma tinv_reconnect_callback:
  assumes "tinv s" and "ws s = None \<or> ws s = Some CLOSED"
    and "\<forall>u\<in>set (timers s). action u \<noteq> Reconnect"
  shows "tinv (reconnect_callback constructed s)"
proof -
  let ?s1 = "s\<lparr>reconnectAttempts := Suc (reconnectAttempts s)\<rparr>"
  have "tinv ?s1 = tinv s" by (rule tinv_cong) simp_all
  then have "tinv (log (LogAttempt (reconnectAttempts ?s1)) ?s1)"
    using assms(1) by simp
  then have "tinv (connect constructed (log (LogAttempt (reconnectAttempts ?s1)) ?s1))"
    using assms(2,3) by (intro tinv_connect) simp_all
  then show ?thesis by (simp add: reconnect_callback_def Let_def)
qed

lemma tinv_startHeartbeat:
  assumes "tinv s" and "ws s = Some OPEN" and "\<forall>u\<in>set (timers s). action u \<noteq> Heartbeat"
  shows "tinv (startHeartbeat s)"
  unfolding startHeartbeat_eq
  using assms by (intro tinv_register) simp_all

lemma tinv_socket_open:
  assumes "tinv s"
  shows "tinv (socket_open s)"
proof (cases "ws s = Some CONNECTING")
  case False
  then show ?thesis using assms by (simp add: socket_open_def)
next
  case True
  have nohb: "\<forall>u\<in>set (timers s). action u \<noteq> Heartbeat"
    and norc: "\<forall>u\<in>set (timers s). action u \<noteq> Reconnect"
    using assms True unfolding tinv_def socket_ok_def by auto
  let ?s0 = "s\<lparr>ws := Some OPEN\<rparr>"
  let ?s2 = "(log (Log ''WebSocket connected'') ?s0)\<lparr>reconnectAttempts := 0\<rparr>"
  have "socket_ok ?s0"
    using nohb norc by (simp add: socket_ok_def)
  then have "tinv ?s0"
    using tinv_parts [OF assms] by (simp add: tinv_def)
  moreover have "tinv ?s2 = tinv ?s0"
    by (rule tinv_cong) simp_all
  ultimately have "tinv ?s2" by simp
  then have "tinv (startHeartbeat ?s2)"
    using nohb by (intro tinv_startHeartbeat) simp_all
  then have "tinv (snd (show_notification ''Connected to ChatSpeed'' ''success''
                     NOTIFICATION_TIMEOUT (startHeartbeat ?s2)))"
    using tinv_quiet quiet_show by blast
  then show ?thesis using True by (simp add: socket_open_def onopen_def Let_def)
qed

lemma tinv_socket_closing:
  assumes "tinv s"
  shows "tinv (socket_closing s)"
proof (cases "ws s = Some OPEN")
  case False
  then show ?thesis using assms by (simp add: socket_closing_def)
next
  case True
  have norc: "\<forall>u\<in>set (timers s). action u \<noteq> Reconnect"
    using assms True unfolding tinv_def socket_ok_def by auto
  have "socket_ok (s\<lparr>ws := Some CLOSING\<rparr>)"
    using norc by (simp add: socket_ok_def)
  then have "tinv (s\<lparr>ws := Some CLOSING\<rparr>)"
    using tinv_parts [OF assms] by (simp add: tinv_def)
  then show ?thesis using True by (simp add: socket_closing_def)
qed

lemma stopHeartbeat_fields [simp]:
  "now (stopHeartbeat s) = now s" "next_timer (stopHeartbeat s) = next_timer s"
  "ws (stopHeartbeat s) = ws s" "reconnectAttempts (stopHeartbeat s) = reconnectAttempts s"
  "wire (stopHeartbeat s) = wire s" "notifications (stopHeartbeat s) = notifications s"
  "next_element (stopHeartbeat s) = next_element s" "container (stopHeartbeat s) = container s"
  "dom_removals (stopHeartbeat s) = dom_removals s" "uncaught (stopHeartbeat s) = uncaught s"
  "scheduled (stopHeartbeat s) = scheduled s" "rng (stopHeartbeat s) = rng s"
  "rng_ix (stopHeartbeat s) = rng_ix s" "elements (stopHeartbeat s) = elements s"
  by (simp_all add: stopHeartbeat_eq split: option.splits)

lemma stopHeartbeat_timers:
  "timers (stopHeartbeat s)
     = filter (\<lambda>t. heartbeatInterval s \<noteq> Some (timer_id t)) (timers s)"
proof (cases "heartbeatInterval s")
  case None
  then show ?thesis by (simp add: stopHeartbeat_eq)
next
  case (Some i)
  then show ?thesis by (auto simp: stopHeartbeat_eq intro!: filter_cong)
qed

lemma tinv_stopHeartbeat_weak:
  assumes c: "clock_ok s" and ti: "timer_ids_ok s" and h: "heartbeat_ok s"
    and rc: "(\<exists>t\<in>set (timers s). action t = Reconnect) \<longrightarrow> ws s = None \<or> ws s = Some CLOSED"
    and uq: "\<forall>t\<in>set (timers s). \<forall>u\<in>set (timers s).
                action t = Reconnect \<longrightarrow> action u = Reconnect \<longrightarrow> t = u"
  shows "tinv (stopHeartbeat s)"
proof -
  have sub: "set (timers (stopHeartbeat s)) \<subseteq> set (timers s)"
    by (simp add: stopHeartbeat_timers)
  have hi: "heartbeatInterval (stopHeartbeat s) = None"
    using h by (rule stopHeartbeat_stops(1))
  have nohb: "\<forall>t\<in>set (timers (stopHeartbeat s)). action t \<noteq> Heartbeat"
    using h by (rule stopHeartbeat_stops(2))
  have 1: "clock_ok (stopHeartbeat s)"
    unfolding clock_ok_def
  proof
    fix t assume "t \<in> set (timers (stopHeartbeat s))"
    then have "t \<in> set (timers s)" using sub by blast
    then show "now (stopHeartbeat s) \<le> due t" using c by (simp add: clock_ok_def)
  qed
  have b: "timer_id t < next_timer (stopHeartbeat s)" if "t \<in> set (timers (stopHeartbeat s))" for t
  proof -
    have "t \<in> set (timers s)" using that sub by blast
    then show ?thesis using ti by (simp add: timer_ids_ok_def)
  qed
  have "distinct (map timer_id (timers s))"
    using ti by (simp add: timer_ids_ok_def)
  then have "distinct (map timer_id (timers (stopHeartbeat s)))"
    unfolding stopHeartbeat_timers by (rule distinct_map_filter)
  then have 2: "timer_ids_ok (stopHeartbeat s)"
    using b unfolding timer_ids_ok_def by blast
  have rep: "\<forall>t\<in>set (timers s). repeating t \<longrightarrow> action t = Heartbeat"
    using h by (simp add: heartbeat_ok_def)
  have 3: "heartbeat_ok (stopHeartbeat s)"
    unfolding heartbeat_ok_def
  proof (intro conjI)
    show "\<forall>t\<in>set (timers (stopHeartbeat s)).
            action t = Heartbeat \<longrightarrow> heartbeatInterval (stopHeartbeat s) = Some (timer_id t)"
      using nohb by blast
    show "\<forall>t\<in>set (timers (stopHeartbeat s)). repeating t \<longrightarrow> action t = Heartbeat"
      using rep sub by blast
    show "\<forall>i. heartbeatInterval (stopHeartbeat s) = Some i \<longrightarrow>
        i < next_timer (stopHeartbeat s) \<and>
        (\<forall>t\<in>set (timers (stopHeartbeat s)). timer_id t = i \<longrightarrow> action t = Heartbeat)"
      by (simp add: hi)
  qed
  have 4: "socket_ok (stopHeartbeat s)"
    unfolding socket_ok_def
  proof (intro conjI)
    show "(\<exists>t\<in>set (timers (stopHeartbeat s)). action t = Heartbeat) \<longrightarrow>
       ws (stopHeartbeat s) = Some OPEN \<or> ws (stopHeartbeat s) = Some CLOSING"
      using nohb by blast
    have "(\<exists>t\<in>set (timers (stopHeartbeat s)). action t = Reconnect) \<longrightarrow>
       ws s = None \<or> ws s = Some CLOSED"
      using rc sub by blast
    then show "(\<exists>t\<in>set (timers (stopHeartbeat s)). action t = Reconnect) \<longrightarrow>
       ws (stopHeartbeat s) = None \<or> ws (stopHeartbeat s) = Some CLOSED"
      by simp
    show "\<forall>t\<in>set (timers (stopHeartbeat s)). \<forall>u\<in>set (timers (stopHeartbeat s)).
            action t = Reconnect \<longrightarrow> action u = Reconnect \<longrightarrow> t = u"
      using uq sub by blast
  qed
  show ?thesis using 1 2 3 4 by (simp add: tinv_def)
qed

lemma tinv_stopHeartbeat: "tinv s \<Longrightarrow> tinv (stopHeartbeat s)"
  by (rule tinv_stopHeartbeat_weak) (simp_all add: tinv_def socket_ok_def)

text \<open>What \<open>onclose\<close> needs: the socket just became \<open>CLOSED\<close> and no reconnect is pending.\<close>

lemma tinv_onclose:
  assumes c: "clock_ok s" and ti: "timer_ids_ok s" and h: "heartbeat_ok s"
    and w: "ws s = Some CLOSED" and norc: "\<forall>u\<in>set (timers s). action u \<noteq> Reconnect"
  shows "tinv (onclose s)"
proof -
  let ?s1 = "log (Log ''WebSocket disconnected'') s"
  have "tinv (stopHeartbeat ?s1)"
    using c ti h norc
    by (intro tinv_stopHeartbeat_weak) simp_all
  moreover have "\<forall>u\<in>set (timers (stopHeartbeat ?s1)). action u \<noteq> Reconnect"
    using norc by (simp add: stopHeartbeat_timers)
  ultimately have "tinv (handleReconnect (stopHeartbeat ?s1))"
    using w by (intro tinv_handleReconnect) simp_all
  then show ?thesis by (simp add: onclose_def)
qed

lemma live_no_reconnect:
  assumes "tinv s" and "live s"
  shows "\<forall>u\<in>set (timers s). action u \<noteq> Reconnect"
  using assms unfolding tinv_def socket_ok_def live_def by auto

lemma tinv_socket_close:
  assumes "tinv s"
  shows "tinv (socket_close s)"
proof (cases "live s")
  case False
  then show ?thesis using assms by (simp add: socket_close_def)
next
  case True
  have "tinv (onclose (s\<lparr>ws := Some CLOSED\<rparr>))"
    using tinv_parts [OF assms] live_no_reconnect [OF assms True]
    by (intro tinv_onclose) simp_all
  then show ?thesis using True by (simp add: socket_close_def)
qed

lemma tinv_socket_fail:
  assumes "tinv s"
  shows "tinv (socket_fail s)"
proof (cases "live s")
  case False
  then show ?thesis using assms by (simp add: socket_fail_def)
next
  case True
  have "tinv (onclose (onerror (s\<lparr>ws := Some CLOSED\<rparr>)))"
    using tinv_parts [OF assms] live_no_reconnect [OF assms True]
    by (intro tinv_onclose) (simp_all add: onerror_def)
  then show ?thesis using True by (simp add: socket_fail_def)
qed

lemma tinv_disconnect:
  assumes "tinv s"
  shows "tinv (disconnect s)"
proof -
  let ?s1 = "stopHeartbeat s"
  have t1: "tinv ?s1" using assms by (rule tinv_stopHeartbeat)
  have nohb: "\<forall>t\<in>set (timers ?s1). action t \<noteq> Heartbeat"
    using assms by (intro stopHeartbeat_stops(2)) (simp add: tinv_def)
  show ?thesis
  proof (cases "ws s")
    case None
    then show ?thesis using t1 by (simp add: disconnect_def Let_def)
  next
    case (Some r)
    let ?r = "if r = CLOSED then CLOSED else CLOSING"
    have rc: "(\<exists>t\<in>set (timers ?s1). action t = Reconnect) \<longrightarrow> r = CLOSED"
      using t1 Some unfolding tinv_def socket_ok_def by auto
    have uq: "\<forall>t\<in>set (timers ?s1). \<forall>u\<in>set (timers ?s1).
                action t = Reconnect \<longrightarrow> action u = Reconnect \<longrightarrow> t = u"
      using t1 unfolding tinv_def socket_ok_def by blast
    have "socket_ok (?s1\<lparr>ws := Some ?r\<rparr>)"
      unfolding socket_ok_def using nohb rc uq by simp
    then have "tinv (?s1\<lparr>ws := Some ?r\<rparr>)"
      using tinv_parts [OF t1] by (simp add: tinv_def)
    then show ?thesis using Some by (simp add: disconnect_def Let_def)
  qed
qed

lemma tinv_elapse:
  assumes "tinv s"
  shows "tinv (elapse d s)"
proof (cases "list_all (\<lambda>t. now s + d \<le> due t) (timers s)")
  case False
  then show ?thesis using assms by (simp add: elapse_def)
next
  case True
  then have "clock_ok (s\<lparr>now := now s + d\<rparr>)"
    by (simp add: clock_ok_def list_all_iff)
  moreover have "timer_ids_ok (s\<lparr>now := now s + d\<rparr>) = timer_ids_ok s"
    by (rule timer_ids_ok_cong) simp_all
  moreover have "heartbeat_ok (s\<lparr>now := now s + d\<rparr>) = heartbeat_ok s"
    by (rule heartbeat_ok_cong) simp_all
  moreover have "socket_ok (s\<lparr>now := now s + d\<rparr>) = socket_ok s"
    by (simp add: socket_ok_def)
  ultimately have "tinv (s\<lparr>now := now s + d\<rparr>)"
    using tinv_parts [OF assms] by (simp add: tinv_def)
  then show ?thesis using True by (simp add: elapse_def)
qed

lemma tinv_onmessage:
  assumes "tinv s"
  shows "tinv (onmessage data s)"
proof (cases data)
  case (In_notification m ty)
  then show ?thesis
    using tinv_quiet [OF assms quiet_show] by (simp add: onmessage_def handleMessage_def)
next
  case (In_user_online u)
  have "tinv (s\<lparr>onlineUsers := insert u (onlineUsers s)\<rparr>) = tinv s"
    by (rule tinv_cong) simp_all
  then show ?thesis using assms In_user_online by (simp add: onmessage_def handleMessage_def)
next
  case (In_user_offline u)
  have "tinv (s\<lparr>onlineUsers := onlineUsers s - {u}\<rparr>) = tinv s"
    by (rule tinv_cong) simp_all
  then show ?thesis using assms In_user_offline by (simp add: onmessage_def handleMessage_def)
next
  case (In_typing_start u)
  have "tinv (s\<lparr>typingUsers := insert u (typingUsers s)\<rparr>) = tinv s"
    by (rule tinv_cong) simp_all
  then show ?thesis using assms In_typing_start by (simp add: onmessage_def handleMessage_def)
next
  case (In_typing_stop u)
  have "tinv (s\<lparr>typingUsers := typingUsers s - {u}\<rparr>) = tinv s"
    by (rule tinv_cong) simp_all
  then show ?thesis using assms In_typing_stop by (simp add: onmessage_def handleMessage_def)
qed (use assms in \<open>simp_all add: onmessage_def handleMessage_def\<close>)

lemma tinv_fire:
  assumes "tinv s"
    and "a = Reconnect \<Longrightarrow>
           (ws s = None \<or> ws s = Some CLOSED) \<and> (\<forall>u\<in>set (timers s). action u \<noteq> Reconnect)"
  shows "tinv (fire constructed a s)"
proof (cases a)
  case (ToastReveal el)
  then show ?thesis using assms(1) by (simp add: fire_def)
next
  case (AutoRemove i)
  then show ?thesis using tinv_quiet [OF assms(1) quiet_remove] by (simp add: fire_def)
next
  case (FinishRemove el i)
  then show ?thesis using tinv_quiet [OF assms(1) quiet_finish] by (simp add: fire_def)
next
  case Reconnect
  then have "tinv (reconnect_callback constructed s)"
    using assms by (intro tinv_reconnect_callback) simp_all
  then show ?thesis using Reconnect by (simp add: fire_def)
next
  case Heartbeat
  then show ?thesis using assms(1) by (simp add: fire_def)
qed

lemma tinv_timer_event:
  assumes "tinv s"
  shows "tinv (timer_event constructed s)"
proof (cases "earliest (timers s)")
  case None
  then show ?thesis using assms by (simp add: timer_event_def)
next
  case (Some t)
  have c: "clock_ok s" and ti: "timer_ids_ok s" and h: "heartbeat_ok s" and so: "socket_ok s"
    using assms(1) by (simp_all add: tinv_def)
  have t: "t \<in> set (timers s)" using Some by (rule earliest_mem)
  have td: "tinv (dequeue t s)" using assms Some by (rule tinv_dequeue)
  have "tinv (fire constructed (action t) (dequeue t s))"
  proof (rule tinv_fire [OF td])
    assume a: "action t = Reconnect"
    then have w: "ws s = None \<or> ws s = Some CLOSED"
      using so t unfolding socket_ok_def by blast
    have nr: "\<not> repeating t"
      using h t a unfolding heartbeat_ok_def by auto
    have "action u \<noteq> Reconnect" if u: "u \<in> set (timers (dequeue t s))" for u
    proof
      assume ua: "action u = Reconnect"
      obtain v where v: "v \<in> set (timers s)"
        "u = (if repeating t \<and> v = t then v\<lparr>due := due t + delay t\<rparr> else v)"
        using dequeue_timers' [OF c Some u] by blast
      then have "u = v" using nr by simp
      then have "u = t" using so v(1) t ua a unfolding socket_ok_def by blast
      then show False using u dequeue_gone [OF ti nr] by simp
    qed
    then show "(ws (dequeue t s) = None \<or> ws (dequeue t s) = Some CLOSED) \<and>
               (\<forall>u\<in>set (timers (dequeue t s)). action u \<noteq> Reconnect)"
      using w by simp
  qed
  then show ?thesis using Some by (simp add: timer_event_def)
qed

lemma tinv_step: "tinv s \<Longrightarrow> tinv (step e s)"
proof (cases e)
  case (Show m ty d)
  assume "tinv s"
  then have "tinv (snd (show_notification m ty d s))" using quiet_show by (rule tinv_quiet)
  then show ?thesis using Show by simp
next
  case (Dismiss i)
  assume "tinv s"
  then have "tinv (remove_notification i s)" using quiet_remove by (rule tinv_quiet)
  then show ?thesis using Dismiss by simp
next
  case Clear
  assume "tinv s"
  then have "tinv (clear_notifications s)" using quiet_clear by (rule tinv_quiet)
  then show ?thesis using Clear by simp
next
  case (Connect constructed)
  assume "tinv s"
  then show ?thesis using Connect by (simp add: tinv_connect list_all_iff)
qed (simp_all add: tinv_elapse tinv_timer_event tinv_disconnect tinv_socket_open
       tinv_socket_closing tinv_socket_close tinv_socket_fail tinv_onmessage)

lemma dom_ok_stopHeartbeat [simp]: "dom_ok (stopHeartbeat s) = dom_ok s"
  by (rule dom_ok_cong) simp_all

lemma dom_ok_startHeartbeat [simp]: "dom_ok (startHeartbeat s) = dom_ok s"
  by (rule dom_ok_cong) (simp_all add: startHeartbeat_eq)

lemma dom_ok_handleReconnect: "dom_ok s \<Longrightarrow> dom_ok (handleReconnect s)"
proof (cases "reconnectAttempts s < maxReconnectAttempts")
  case True
  then have "dom_ok (handleReconnect s) = dom_ok s"
    by (intro dom_ok_cong) (simp_all add: handleReconnect_eq)
  then show "dom_ok s \<Longrightarrow> ?thesis" by simp
next
  case False
  then show "dom_ok s \<Longrightarrow> ?thesis" by (simp add: handleReconnect_eq dom_ok_show)
qed

lemma dom_ok_ws [simp]: "dom_ok (s\<lparr>ws := x\<rparr>) = dom_ok s"
  by (rule dom_ok_cong) simp_all

lemma dom_ok_attempts [simp]: "dom_ok (s\<lparr>reconnectAttempts := x\<rparr>) = dom_ok s"
  by (rule dom_ok_cong) simp_all

lemma dom_ok_now [simp]: "dom_ok (s\<lparr>now := x\<rparr>) = dom_ok s"
  by (rule dom_ok_cong) simp_all

lemma dom_ok_users [simp]:
  "dom_ok (s\<lparr>onlineUsers := x\<rparr>) = dom_ok s" "dom_ok (s\<lparr>typingUsers := y\<rparr>) = dom_ok s"
  by (rule dom_ok_cong; simp)+

lemma dom_ok_connect: "dom_ok s \<Longrightarrow> dom_ok (connect constructed s)"
  by (simp add: connect_def dom_ok_handleReconnect)

lemma dom_ok_reconnect_callback: "dom_ok s \<Longrightarrow> dom_ok (reconnect_callback constructed s)"
  by (simp add: reconnect_callback_def Let_def dom_ok_connect)

lemma dom_ok_onopen: "dom_ok s \<Longrightarrow> dom_ok (onopen s)"
  by (simp add: onopen_def Let_def dom_ok_show)

lemma dom_ok_onclose: "dom_ok s \<Longrightarrow> dom_ok (onclose s)"
  by (simp add: onclose_def dom_ok_handleReconnect)

lemma dom_ok_onmessage: "dom_ok s \<Longrightarrow> dom_ok (onmessage data s)"
  by (cases data) (simp_all add: onmessage_def handleMessage_def dom_ok_show)

lemma dom_ok_fire: "dom_ok s \<Longrightarrow> dom_ok (fire constructed a s)"
  by (cases a) (simp_all add: fire_def dom_ok_remove dom_ok_finish dom_ok_reconnect_callback)

lemma dom_ok_step: "dom_ok s \<Longrightarrow> dom_ok (step e s)"
proof (cases e)
  case (Timer constructed)
  assume "dom_ok s"
  then show ?thesis
    using Timer by (simp add: timer_event_def dom_ok_fire split: option.splits)
next
  case Disconnect
  assume "dom_ok s"
  then show ?thesis
    using Disconnect by (simp add: disconnect_def Let_def split: option.splits)
qed (simp_all add: elapse_def dom_ok_show dom_ok_remove dom_ok_clear dom_ok_connect socket_open_def
       socket_closing_def socket_close_def socket_fail_def onerror_def dom_ok_onopen
       dom_ok_onclose dom_ok_onmessage)

lemma inv_step: "inv s \<Longrightarrow> inv (step e s)"
  by (simp add: inv_def tinv_step dom_ok_step)

lemma inv_run: "inv s \<Longrightarrow> inv (run evs s)"
  unfolding run_def by (induction evs arbitrary: s) (simp_all add: inv_step)

lemma inv_initial: "inv (initial r)"
  by (simp add: inv_def tinv_def clock_ok_def timer_ids_ok_def heartbeat_ok_def socket_ok_def
        dom_ok_def initial_def)

lemma inv_connect_initial: "inv (connect constructed (initial r))"
proof -
  have "tinv (initial r)" "dom_ok (initial r)" using inv_initial by (simp_all add: inv_def)
  moreover have "ws (initial r) = None" "timers (initial r) = []" by (simp_all add: initial_def)
  ultimately show ?thesis
    by (simp add: inv_def tinv_connect dom_ok_connect)
qed

section \<open>Properties of the notification manager\<close>

subsection \<open>No handler throws\<close>

lemma uncaught_show [simp]: "uncaught (snd (show_notification m ty d s)) = uncaught s"
  by (simp add: show_notification_eq)

lemma uncaught_remove [simp]: "uncaught (remove_notification i s) = uncaught s"
  by (simp add: remove_notification_eq split: option.splits)

lemma uncaught_finish [simp]: "uncaught (finish_remove el i s) = uncaught s"
  by (simp add: finish_remove_eq)

lemma uncaught_clear [simp]: "uncaught (clear_notifications s) = uncaught s"
proof -
  have "uncaught (foldl (\<lambda>s n. remove_notification (nid n) s) s ns) = uncaught s" for ns
    by (induction ns arbitrary: s) simp_all
  then show ?thesis by (simp add: clear_notifications_def)
qed

lemma uncaught_handleReconnect [simp]: "uncaught (handleReconnect s) = uncaught s"
  by (simp add: handleReconnect_eq)

lemma uncaught_connect [simp]: "uncaught (connect c s) = uncaught s"
  by (simp add: connect_def)

lemma uncaught_reconnect_callback [simp]: "uncaught (reconnect_callback c s) = uncaught s"
  by (simp add: reconnect_callback_def Let_def)

lemma uncaught_startHeartbeat [simp]: "uncaught (startHeartbeat s) = uncaught s"
  by (simp add: startHeartbeat_eq)

lemma uncaught_onopen [simp]: "uncaught (onopen s) = uncaught s"
  by (simp add: onopen_def Let_def)

lemma uncaught_onclose [simp]: "uncaught (onclose s) = uncaught s"
  by (simp add: onclose_def)

lemma uncaught_onmessage [simp]: "uncaught (onmessage data s) = uncaught s"
  by (cases data) (simp_all add: onmessage_def handleMessage_def)

lemma uncaught_fire [simp]: "uncaught (fire c a s) = uncaught s"
  by (cases a) (simp_all add: fire_def)

lemma uncaught_step [simp]: "uncaught (step e s) = uncaught s"
  by (cases e)
     (simp_all add: elapse_def timer_event_def disconnect_def Let_def socket_open_def
        socket_closing_def socket_close_def socket_fail_def onerror_def split: option.splits)

lemma uncaught_run [simp]: "uncaught (run evs s) = uncaught s"
  unfolding run_def by (induction evs arbitrary: s) simp_all

subsection \<open>Removing a notification\<close>

lemma remove_untracked: "\<not> tracked i s \<Longrightarrow> remove_notification i s = s"
proof -
  assume "\<not> tracked i s"
  then have "find (\<lambda>n. nid n = i) (notifications s) = None"
    by (auto simp: tracked_def find_None_iff)
  then show ?thesis by (simp add: remove_notification_def)
qed

lemma finish_untracks: "\<not> tracked i (finish_remove el i s)"
  by (auto simp: tracked_def finish_remove_eq)

lemma find_tracked: "find (\<lambda>n. nid n = i) (notifications s) = Some n \<Longrightarrow> tracked i s"
  by (auto simp: tracked_def find_Some_iff intro!: image_eqI [where x = n])

text \<open>Two calls of \<open>remove\<close> within the transition window, then both timers.\<close>

lemma remove_twice:
  assumes f: "find (\<lambda>n. nid n = i) (notifications s) = Some n"
    and d: "dom_ok s" and c: "element n \<in> set (container s)"
  shows "map action (drop (length (timers s))
            (timers (remove_notification i (remove_notification i s))))
           = [FinishRemove (element n) i, FinishRemove (element n) i]"
    and "map delay (drop (length (timers s))
            (timers (remove_notification i (remove_notification i s)))) = [300, 300]"
    and "notifications (remove_notification i (remove_notification i s)) = notifications s"
    and "dom_removals (finish_remove (element n) i (finish_remove (element n) i
            (remove_notification i (remove_notification i s))))
           = dom_removals s @ [element n]"
    and "element n \<notin> set (container (finish_remove (element n) i (finish_remove (element n) i
            (remove_notification i (remove_notification i s)))))"
proof -
  let ?s1 = "remove_notification i s"
  have n1: "notifications ?s1 = notifications s" and c1: "container ?s1 = container s"
    and r1: "dom_removals ?s1 = dom_removals s"
    and t1: "timers ?s1 = timers s @ [\<lparr>timer_id = next_timer s, due = now s + 300, delay = 300,
                  action = FinishRemove (element n) i, repeating = False\<rparr>]"
    using f by (simp_all add: remove_notification_eq)
  let ?s2 = "remove_notification i ?s1"
  have f1: "find (\<lambda>n. nid n = i) (notifications ?s1) = Some n" using f n1 by simp
  have n2: "notifications ?s2 = notifications s" and c2: "container ?s2 = container s"
    and r2: "dom_removals ?s2 = dom_removals s"
    and t2: "timers ?s2 = timers ?s1 @ [\<lparr>timer_id = next_timer ?s1, due = now ?s1 + 300,
                  delay = 300, action = FinishRemove (element n) i, repeating = False\<rparr>]"
    using f1 n1 c1 r1 by (simp_all add: remove_notification_eq [of i ?s1])
  show "map action (drop (length (timers s)) (timers ?s2))
           = [FinishRemove (element n) i, FinishRemove (element n) i]"
    and "map delay (drop (length (timers s)) (timers ?s2)) = [300, 300]"
    by (simp_all add: t2 t1)
  show "notifications ?s2 = notifications s" by (rule n2)
  let ?s3 = "finish_remove (element n) i ?s2"
  have c3: "container ?s3 = removeAll (element n) (container s)"
    and r3: "dom_removals ?s3 = dom_removals s @ [element n]"
    using c c2 r2 by (simp_all add: finish_remove_eq [of _ _ ?s2])
  show "dom_removals (finish_remove (element n) i ?s3) = dom_removals s @ [element n]"
    using c3 r3 by (simp add: finish_remove_eq [of _ _ ?s3])
  show "element n \<notin> set (container (finish_remove (element n) i ?s3))"
    using c3 by (simp add: finish_remove_eq [of _ _ ?s3])
qed

lemma count_list_distinct: "distinct xs \<Longrightarrow> x \<in> set xs \<Longrightarrow> count_list xs x = 1"
  by (induction xs) auto

text \<open>Every element that was created is attached or was detached once, never both.\<close>

lemma removal_count:
  assumes "dom_ok s" and "el < next_element s"
  shows "count_list (dom_removals s) el = (if el \<in> set (container s) then 0 else 1)"
proof (cases "el \<in> set (container s)")
  case True
  then have "el \<notin> set (dom_removals s)" using assms(1) unfolding dom_ok_def by blast
  then show ?thesis using True by (simp add: count_list_0_iff)
next
  case False
  then have "el \<in> set (dom_removals s)" using assms unfolding dom_ok_def by blast
  moreover have "distinct (dom_removals s)" using assms(1) by (simp add: dom_ok_def)
  ultimately show ?thesis using False by (simp add: count_list_distinct)
qed


text \<open>
  Claim C7. \<open>remove\<close> of an id that is not tracked, because it is unknown or because its
  removal has been completed, leaves the state as it is. Calling \<open>remove\<close> twice on a
  tracked notification within the transition window registers two timers; when both
  have fired the notification is gone, its element was detached once, and nothing was
  thrown. In every state that the page reaches no handler has thrown, and every toast
  element that was created is either still attached or was detached exactly once.
\<close>

theorem remove_idempotent:
  "(\<not> tracked i s \<longrightarrow> remove_notification i s = s)
   \<and> remove_notification i (finish_remove el i s) = finish_remove el i s
   \<and> (dom_ok s \<and> find (\<lambda>n. nid n = i) (notifications s) = Some n
        \<and> element n \<in> set (container s) \<longrightarrow>
       (let s2 = remove_notification i (remove_notification i s);
            s4 = finish_remove (element n) i (finish_remove (element n) i s2)
        in map action (drop (length (timers s)) (timers s2))
             = [FinishRemove (element n) i, FinishRemove (element n) i]
           \<and> notifications s2 = notifications s
           \<and> \<not> tracked i s4 \<and> element n \<notin> set (container s4)
           \<and> dom_removals s4 = dom_removals s @ [element n]
           \<and> uncaught s4 = uncaught s))
   \<and> uncaught (run evs (initial r)) = []
   \<and> (\<forall>el<next_element (run evs (initial r)).
         count_list (dom_removals (run evs (initial r))) el
           = (if el \<in> set (container (run evs (initial r))) then 0 else 1))"
proof -
  have 1: "\<not> tracked i s \<longrightarrow> remove_notification i s = s"
    by (simp add: remove_untracked)
  have 2: "remove_notification i (finish_remove el i s) = finish_remove el i s"
    using finish_untracks by (rule remove_untracked)
  have 3: "dom_ok s \<and> find (\<lambda>n. nid n = i) (notifications s) = Some n
        \<and> element n \<in> set (container s) \<longrightarrow>
       (let s2 = remove_notification i (remove_notification i s);
            s4 = finish_remove (element n) i (finish_remove (element n) i s2)
        in map action (drop (length (timers s)) (timers s2))
             = [FinishRemove (element n) i, FinishRemove (element n) i]
           \<and> notifications s2 = notifications s
           \<and> \<not> tracked i s4 \<and> element n \<notin> set (container s4)
           \<and> dom_removals s4 = dom_removals s @ [element n]
           \<and> uncaught s4 = uncaught s)"
    using remove_twice [of i s n] finish_untracks by (simp add: Let_def)
  have 4: "uncaught (run evs (initial r)) = []"
    by (simp add: initial_def)
  have "inv (run evs (initial r))"
    using inv_initial by (rule inv_run)
  then have "dom_ok (run evs (initial r))" by (simp add: inv_def)
  then have 5: "\<forall>el<next_element (run evs (initial r)).
         count_list (dom_removals (run evs (initial r))) el
           = (if el \<in> set (container (run evs (initial r))) then 0 else 1)"
    using removal_count by blast
  show ?thesis using 1 2 3 4 5 by blast
qed

lemma saved_fields:
  "notifications saved = [\<lparr>nid = ''id'', element = 0\<rparr>]" "container saved = [0]"
  "dom_removals saved = []" "uncaught saved = []" "now saved = 0" "next_element saved = 1"
  "timers saved = [\<lparr>timer_id = 1, due = 100, delay = 100, action = ToastReveal 0, repeating = False\<rparr>,
     \<lparr>timer_id = 2, due = 5000, delay = 5000, action = AutoRemove ''id'', repeating = False\<rparr>]"
  by (simp_all add: saved_def show_notification_eq show_timers_def initial_def ids_def)

theorem remove_idempotent_witness:
  "\<not> tracked ''nobody'' saved \<and> remove_notification ''nobody'' saved = saved
   \<and> dom_ok saved \<and> find (\<lambda>n. nid n = ''id'') (notifications saved) = Some \<lparr>nid = ''id'', element = 0\<rparr>
   \<and> element \<lparr>nid = ''id'', element = 0\<rparr> \<in> set (container saved)
   \<and> dom_removals (finish_remove 0 ''id'' (finish_remove 0 ''id''
         (remove_notification ''id'' (remove_notification ''id'' saved)))) = [0]
   \<and> \<not> tracked ''id'' (finish_remove 0 ''id'' (finish_remove 0 ''id''
         (remove_notification ''id'' (remove_notification ''id'' saved))))
   \<and> (0::nat) < next_element (run [Show ''Saved'' ''success'' 5000] (initial ids))
   \<and> count_list (dom_removals (run [Show ''Saved'' ''success'' 5000] (initial ids))) 0 = 0"
proof -
  have d: "dom_ok saved"
    unfolding saved_def using inv_initial by (intro dom_ok_show) (simp add: inv_def)
  have t: "\<not> tracked ''nobody'' saved"
    by (simp add: tracked_def saved_fields)
  have f: "find (\<lambda>n. nid n = ''id'') (notifications saved) = Some \<lparr>nid = ''id'', element = 0\<rparr>"
    by (simp add: saved_fields)
  have r: "run [Show ''Saved'' ''success'' 5000] (initial ids) = saved"
    by (simp add: run_def saved_def)
  show ?thesis
    using remove_idempotent [of "''nobody''" saved 0 "\<lparr>nid = ''id'', element = 0\<rparr>"
            "[Show ''Saved'' ''success'' 5000]" ids]
      remove_idempotent [of "''id''" saved 0 "\<lparr>nid = ''id'', element = 0\<rparr>"
            "[Show ''Saved'' ''success'' 5000]" ids]
    by (simp add: d t f r saved_fields Let_def)
qed

section \<open>The lifetime of a notification\<close>

subsection \<open>Steps that leave the notifications alone\<close>

lemma same_toasts_refl: "same_toasts s s"
  by (simp add: same_toasts_def)

lemma same_toasts_trans: "same_toasts s s' \<Longrightarrow> same_toasts s' s'' \<Longrightarrow> same_toasts s s''"
  by (simp add: same_toasts_def)

lemma same_toasts_cong:
  "notifications s' = notifications s \<Longrightarrow> rng s' = rng s \<Longrightarrow> rng_ix s' = rng_ix s \<Longrightarrow>
   timers s' = timers s \<Longrightarrow> same_toasts s s'"
  by (simp add: same_toasts_def)

lemma toast_path_same: "same_toasts s s' \<Longrightarrow> toast_path s s'"
  by (simp add: toast_path_def)

lemma toast_path_show:
  "same_toasts s s1 \<Longrightarrow> toast_path s (snd (show_notification m ty d s1))"
  unfolding toast_path_def by blast

lemma toast_path_after:
  assumes "same_toasts s s1" and "toast_path s1 s'"
  shows "toast_path s s'"
proof -
  from assms(2) consider "same_toasts s1 s'"
    | s2 m ty d where "same_toasts s1 s2" "s' = snd (show_notification m ty d s2)"
    unfolding toast_path_def by blast
  then show ?thesis
  proof cases
    case 1
    then show ?thesis using assms(1) same_toasts_trans toast_path_same by blast
  next
    case 2
    then show ?thesis using assms(1) same_toasts_trans toast_path_show by blast
  qed
qed

lemma filter_toast_filter:
  assumes "\<And>t. t \<in> set ts \<Longrightarrow> \<not> P t \<Longrightarrow> \<not> toast_timer t"
  shows "filter toast_timer (filter P ts) = filter toast_timer ts"
  using assms by (induction ts) auto

lemma filter_toast_remove1:
  assumes "\<not> toast_timer t"
  shows "filter toast_timer (remove1 t ts) = filter toast_timer ts"
  using assms by (induction ts) auto

lemma filter_toast_rearm:
  assumes "\<not> toast_timer t"
  shows "filter toast_timer (map (\<lambda>u. if u = t then u\<lparr>due := x\<rparr> else u) ts)
           = filter toast_timer ts"
proof -
  have "\<not> toast_timer (t\<lparr>due := x\<rparr>)" using assms by (simp add: toast_timer_def)
  then show ?thesis using assms by (induction ts) auto
qed

lemma same_toasts_log [simp]: "same_toasts s (log e s)"
  by (rule same_toasts_cong) simp_all

lemma same_toasts_send [simp]: "same_toasts s (send f s)"
  by (rule same_toasts_cong) simp_all

lemma same_toasts_classList_set [simp]: "same_toasts s (classList_set el b s)"
  by (rule same_toasts_cong) simp_all

lemma same_toasts_updates [simp]:
  "same_toasts s (s\<lparr>ws := w\<rparr>)" "same_toasts s (s\<lparr>reconnectAttempts := a\<rparr>)"
  "same_toasts s (s\<lparr>onlineUsers := ou\<rparr>)" "same_toasts s (s\<lparr>typingUsers := tu\<rparr>)"
  "same_toasts s (s\<lparr>now := n\<rparr>)"
  by (rule same_toasts_cong; simp)+

lemma same_toasts_startHeartbeat: "same_toasts s (startHeartbeat s)"
  by (simp add: same_toasts_def startHeartbeat_eq toast_timer_def)

lemma stopHeartbeat_rng [simp]:
  "rng (stopHeartbeat s) = rng s" "rng_ix (stopHeartbeat s) = rng_ix s"
  by (simp_all add: stopHeartbeat_eq split: option.splits)

lemma same_toasts_stopHeartbeat:
  assumes "heartbeat_ok s"
  shows "same_toasts s (stopHeartbeat s)"
proof -
  have "\<not> toast_timer t"
    if "t \<in> set (timers s)" "\<not> heartbeatInterval s \<noteq> Some (timer_id t)" for t
  proof -
    have "heartbeatInterval s = Some (timer_id t)" using that(2) by simp
    then have "action t = Heartbeat"
      using assms that(1) unfolding heartbeat_ok_def by blast
    then show ?thesis by (simp add: toast_timer_def)
  qed
  then have "filter toast_timer (timers (stopHeartbeat s)) = filter toast_timer (timers s)"
    unfolding stopHeartbeat_timers by (rule filter_toast_filter)
  then show ?thesis by (simp add: same_toasts_def)
qed

lemma toast_path_handleReconnect: "toast_path s (handleReconnect s)"
proof (cases "reconnectAttempts s < maxReconnectAttempts")
  case True
  then have "same_toasts s (handleReconnect s)"
    by (simp add: same_toasts_def handleReconnect_eq toast_timer_def)
  then show ?thesis by (rule toast_path_same)
next
  case False
  then show ?thesis
    using toast_path_show [OF same_toasts_refl] by (simp add: handleReconnect_eq)
qed

lemma toast_path_connect: "toast_path s (connect constructed s)"
proof (cases constructed)
  case True
  then show ?thesis by (simp add: connect_def toast_path_same)
next
  case False
  have "toast_path s (handleReconnect (log (Err ''WebSocket connection failed:'') s))"
    using same_toasts_log toast_path_handleReconnect by (rule toast_path_after)
  then show ?thesis using False by (simp add: connect_def)
qed

lemma toast_path_reconnect_callback: "toast_path s (reconnect_callback constructed s)"
proof -
  let ?s1 = "s\<lparr>reconnectAttempts := Suc (reconnectAttempts s)\<rparr>"
  have "same_toasts s (log (LogAttempt (reconnectAttempts ?s1)) ?s1)"
    by (rule same_toasts_cong) simp_all
  then have "toast_path s (connect constructed (log (LogAttempt (reconnectAttempts ?s1)) ?s1))"
    using toast_path_connect by (rule toast_path_after)
  then show ?thesis by (simp add: reconnect_callback_def Let_def)
qed

lemma toast_path_onopen: "toast_path s (onopen s)"
proof -
  let ?s2 = "(log (Log ''WebSocket connected'') s)\<lparr>reconnectAttempts := 0\<rparr>"
  have "same_toasts s ?s2" by (rule same_toasts_cong) simp_all
  then have "same_toasts s (startHeartbeat ?s2)"
    using same_toasts_startHeartbeat by (rule same_toasts_trans)
  then show ?thesis
    unfolding onopen_def Let_def by (rule toast_path_show)
qed

lemma toast_path_onclose:
  assumes "heartbeat_ok s"
  shows "toast_path s (onclose s)"
proof -
  let ?s1 = "log (Log ''WebSocket disconnected'') s"
  have "heartbeat_ok ?s1" using assms by simp
  then have "same_toasts ?s1 (stopHeartbeat ?s1)" by (rule same_toasts_stopHeartbeat)
  then have "same_toasts s (stopHeartbeat ?s1)"
    using same_toasts_log same_toasts_trans by blast
  then show ?thesis
    unfolding onclose_def using toast_path_handleReconnect by (rule toast_path_after)
qed

lemma toast_path_onmessage: "toast_path s (onmessage data s)"
  by (cases data)
     (simp_all add: onmessage_def handleMessage_def toast_path_same same_toasts_refl
        toast_path_show)

lemma toast_path_disconnect:
  assumes "heartbeat_ok s"
  shows "toast_path s (disconnect s)"
proof -
  have a: "same_toasts s (stopHeartbeat s)" using assms by (rule same_toasts_stopHeartbeat)
  have "same_toasts s (disconnect s)"
  proof (cases "ws s")
    case None
    then show ?thesis using a by (simp add: disconnect_def Let_def)
  next
    case (Some r)
    have "same_toasts (stopHeartbeat s)
            ((stopHeartbeat s)\<lparr>ws := Some (if r = CLOSED then CLOSED else CLOSING)\<rparr>)"
      by simp
    then have "same_toasts s
            ((stopHeartbeat s)\<lparr>ws := Some (if r = CLOSED then CLOSED else CLOSING)\<rparr>)"
      using a same_toasts_trans by blast
    then show ?thesis
      using Some by (simp add: disconnect_def Let_def)
  qed
  then show ?thesis by (rule toast_path_same)
qed

lemma dequeue_rng [simp]: "rng (dequeue t s) = rng s" "rng_ix (dequeue t s) = rng_ix s"
  by (simp_all add: dequeue_def Let_def)

lemma same_toasts_dequeue:
  assumes "\<not> toast_timer t"
  shows "same_toasts s (dequeue t s)"
  using assms
  by (simp add: same_toasts_def dequeue_def Let_def filter_toast_remove1 filter_toast_rearm)

text \<open>Every event but the firing of a notification timer and the calls of the notification
  manager leaves the notifications alone or shows one.\<close>

lemma step_toast_path:
  assumes "inv s"
    and "\<And>m ty d. e \<noteq> Show m ty d" and "\<And>i. e \<noteq> Dismiss i" and "e \<noteq> Clear"
    and "\<And>c t. e = Timer c \<Longrightarrow> earliest (timers s) = Some t \<Longrightarrow> \<not> toast_timer t"
  shows "toast_path s (step e s)"
proof -
  have h: "heartbeat_ok s" using assms(1) by (simp add: inv_def tinv_def)
  show ?thesis
  proof (cases e)
    case (Elapse d)
    then show ?thesis by (simp add: elapse_def toast_path_same same_toasts_refl)
  next
    case (Timer c)
    show ?thesis
    proof (cases "earliest (timers s)")
      case None
      then show ?thesis using Timer by (simp add: timer_event_def toast_path_same same_toasts_refl)
    next
      case (Some t)
      then have nt: "\<not> toast_timer t" using assms(5) Timer by blast
      then have sd: "same_toasts s (dequeue t s)" by (rule same_toasts_dequeue)
      have "toast_path (dequeue t s) (fire c (action t) (dequeue t s))"
      proof (cases "action t = Reconnect")
        case True
        then show ?thesis by (simp add: fire_def toast_path_reconnect_callback)
      next
        case False
        then have "action t = Heartbeat" using nt by (simp add: toast_timer_def)
        then show ?thesis by (simp add: fire_def toast_path_same)
      qed
      then have "toast_path s (fire c (action t) (dequeue t s))"
        using sd toast_path_after by blast
      then show ?thesis using Timer Some by (simp add: timer_event_def)
    qed
  next
    case (Connect c)
    then show ?thesis by (simp add: toast_path_connect toast_path_same same_toasts_refl)
  next
    case (Show m ty d)
    then show ?thesis using assms(2) by blast
  next
    case (Dismiss i)
    then show ?thesis using assms(3) by blast
  next
    case Clear
    then show ?thesis using assms(4) by blast
  next
    case Disconnect
    then show ?thesis using h by (simp add: toast_path_disconnect)
  next
    case SocketOpen
    have "toast_path s (onopen (s\<lparr>ws := Some OPEN\<rparr>))"
      using same_toasts_updates(1) toast_path_onopen by (rule toast_path_after)
    then show ?thesis
      using SocketOpen by (simp add: socket_open_def toast_path_same same_toasts_refl)
  next
    case SocketClosing
    then show ?thesis by (simp add: socket_closing_def toast_path_same same_toasts_refl)
  next
    case SocketClose
    have "toast_path (s\<lparr>ws := Some CLOSED\<rparr>) (onclose (s\<lparr>ws := Some CLOSED\<rparr>))"
      using h by (intro toast_path_onclose) simp
    then have "toast_path s (onclose (s\<lparr>ws := Some CLOSED\<rparr>))"
      using same_toasts_updates(1) toast_path_after by blast
    then show ?thesis
      using SocketClose by (simp add: socket_close_def toast_path_same same_toasts_refl)
  next
    case SocketFail
    let ?s1 = "onerror (s\<lparr>ws := Some CLOSED\<rparr>)"
    have s1: "same_toasts s ?s1"
      unfolding onerror_def by (rule same_toasts_cong) simp_all
    have "toast_path ?s1 (onclose ?s1)"
      using h by (intro toast_path_onclose) (simp add: onerror_def)
    then have "toast_path s (onclose ?s1)"
      using s1 toast_path_after by blast
    then show ?thesis
      using SocketFail by (simp add: socket_fail_def toast_path_same same_toasts_refl)
  next
    case (Message data)
    then show ?thesis by (simp add: toast_path_onmessage)
  next
    case (Send data)
    then show ?thesis by (simp add: toast_path_same)
  qed
qed

subsection \<open>A notification with a positive duration is removed on schedule\<close>

lemma removal_due_toast: "removal_due i D t \<Longrightarrow> toast_timer t"
  by (auto simp: removal_due_def toast_timer_def split: action.splits)

lemma removal_of_toast: "removal_of i t \<Longrightarrow> toast_timer t"
  by (auto simp: removal_of_def toast_timer_def split: action.splits)

lemma same_toasts_timer:
  assumes "same_toasts s s'" and "toast_timer t"
  shows "t \<in> set (timers s') \<longleftrightarrow> t \<in> set (timers s)"
proof -
  have "t \<in> set (filter toast_timer (timers s')) \<longleftrightarrow> t \<in> set (filter toast_timer (timers s))"
    using assms(1) by (simp add: same_toasts_def)
  then show ?thesis using assms(2) by simp
qed

lemma tracked_same: "same_toasts s s' \<Longrightarrow> tracked i s' = tracked i s"
  by (simp add: same_toasts_def tracked_def)

lemma never_again_same: "same_toasts s s' \<Longrightarrow> never_again i s' = never_again i s"
  by (simp add: same_toasts_def never_again_def)

lemma on_schedule_same:
  assumes "same_toasts s s'" and "on_schedule i D s"
  shows "on_schedule i D s'"
  unfolding on_schedule_def
proof
  assume "tracked i s'"
  then have "tracked i s" using assms(1) by (simp add: tracked_same)
  then obtain t where t: "t \<in> set (timers s)" "removal_due i D t"
    using assms(2) unfolding on_schedule_def by blast
  then have "t \<in> set (timers s')"
    using same_toasts_timer [OF assms(1) removal_due_toast] by blast
  then show "\<exists>t\<in>set (timers s'). removal_due i D t" using t(2) by blast
qed

lemma unscheduled_same:
  assumes "same_toasts s s'" and "unscheduled i s"
  shows "unscheduled i s'"
  unfolding unscheduled_def
proof
  fix t assume t: "t \<in> set (timers s')"
  show "\<not> removal_of i t"
  proof
    assume r: "removal_of i t"
    then have "t \<in> set (timers s)"
      using same_toasts_timer [OF assms(1) removal_of_toast] t by blast
    then show False using assms(2) r unfolding unscheduled_def by blast
  qed
qed

lemma show_fields:
  "notifications (snd (show_notification m ty d s))
     = notifications s @ [\<lparr>nid = rng s (rng_ix s), element = next_element s\<rparr>]"
  "timers (snd (show_notification m ty d s))
     = timers s @ show_timers (next_element s) (rng s (rng_ix s)) d s"
  "rng (snd (show_notification m ty d s)) = rng s"
  "rng_ix (snd (show_notification m ty d s)) = Suc (rng_ix s)"
  "now (snd (show_notification m ty d s)) = now s"
  "fst (show_notification m ty d s) = rng s (rng_ix s)"
  by (simp_all add: show_notification_eq)

lemma never_again_show:
  "never_again i s \<Longrightarrow> never_again i (snd (show_notification m ty d s))"
  by (simp add: never_again_def show_fields)

lemma tracked_show:
  "never_again i s \<Longrightarrow> tracked i (snd (show_notification m ty d s)) = tracked i s"
proof -
  assume "never_again i s"
  then have "rng s (rng_ix s) \<noteq> i" by (simp add: never_again_def)
  then show ?thesis by (auto simp: tracked_def show_fields)
qed

lemma on_schedule_show:
  assumes "never_again i s" and "on_schedule i D s"
  shows "on_schedule i D (snd (show_notification m ty d s))"
  using assms(2) unfolding on_schedule_def
  by (auto simp: tracked_show [OF assms(1)] show_fields(2))

lemma unscheduled_show:
  assumes "never_again i s" and "unscheduled i s"
  shows "unscheduled i (snd (show_notification m ty d s))"
proof -
  have "rng s (rng_ix s) \<noteq> i" using assms(1) by (simp add: never_again_def)
  then show ?thesis
    using assms(2) unfolding unscheduled_def
    by (auto simp: show_fields(2) show_timers_def removal_of_def)
qed

lemma on_schedule_path:
  assumes "toast_path s s'" and "never_again i s" and "on_schedule i D s"
  shows "on_schedule i D s' \<and> never_again i s'"
proof -
  from assms(1) consider "same_toasts s s'"
    | s1 m ty d where "same_toasts s s1" "s' = snd (show_notification m ty d s1)"
    unfolding toast_path_def by blast
  then show ?thesis
  proof cases
    case 1
    then show ?thesis using assms by (simp add: on_schedule_same never_again_same)
  next
    case 2
    have "never_again i s1" "on_schedule i D s1"
      using 2(1) assms by (simp_all add: on_schedule_same never_again_same)
    then show ?thesis using 2(2) by (simp add: on_schedule_show never_again_show)
  qed
qed

lemma kept_path:
  assumes "toast_path s s'" and "never_again i s" and "tracked i s" and "unscheduled i s"
  shows "tracked i s' \<and> unscheduled i s' \<and> never_again i s'"
proof -
  from assms(1) consider "same_toasts s s'"
    | s1 m ty d where "same_toasts s s1" "s' = snd (show_notification m ty d s1)"
    unfolding toast_path_def by blast
  then show ?thesis
  proof cases
    case 1
    then show ?thesis using assms by (simp add: tracked_same unscheduled_same never_again_same)
  next
    case 2
    have "never_again i s1" "tracked i s1" "unscheduled i s1"
      using 2(1) assms by (simp_all add: tracked_same unscheduled_same never_again_same)
    then show ?thesis using 2(2) by (simp add: tracked_show unscheduled_show never_again_show)
  qed
qed

lemma remove_fields:
  "notifications (remove_notification j s) = notifications s"
  "rng (remove_notification j s) = rng s" "rng_ix (remove_notification j s) = rng_ix s"
  "now (remove_notification j s) = now s"
  by (simp_all add: remove_notification_eq split: option.splits)

lemma remove_timers:
  "timers (remove_notification j s) =
     timers s @ (case find (\<lambda>n. nid n = j) (notifications s) of
                   None \<Rightarrow> []
                 | Some n \<Rightarrow> [\<lparr>timer_id = next_timer s, due = now s + 300, delay = 300,
                               action = FinishRemove (element n) j, repeating = False\<rparr>])"
  by (simp add: remove_notification_eq split: option.splits)

lemma tracked_remove [simp]: "tracked i (remove_notification j s) = tracked i s"
  by (simp add: tracked_def remove_fields)

lemma never_again_remove [simp]: "never_again i (remove_notification j s) = never_again i s"
  by (simp add: never_again_def remove_fields)

lemma on_schedule_remove: "on_schedule i D s \<Longrightarrow> on_schedule i D (remove_notification j s)"
  unfolding on_schedule_def by (auto simp: remove_timers)

lemma unscheduled_remove:
  "j \<noteq> i \<Longrightarrow> unscheduled i s \<Longrightarrow> unscheduled i (remove_notification j s)"
  unfolding unscheduled_def by (auto simp: remove_timers removal_of_def split: option.splits)

lemma clear_schedule:
  "on_schedule i D s \<Longrightarrow> on_schedule i D (clear_notifications s)"
  "never_again i (clear_notifications s) = never_again i s"
proof -
  have a: "on_schedule i D s \<Longrightarrow>
        on_schedule i D (foldl (\<lambda>s n. remove_notification (nid n) s) s ns)" for ns
    by (induction ns arbitrary: s) (simp_all add: on_schedule_remove)
  have b: "never_again i (foldl (\<lambda>s n. remove_notification (nid n) s) s ns) = never_again i s" for ns
    by (induction ns arbitrary: s) simp_all
  show "on_schedule i D s \<Longrightarrow> on_schedule i D (clear_notifications s)"
    "never_again i (clear_notifications s) = never_again i s"
    using a b by (simp_all add: clear_notifications_def)
qed


lemma finish_fields:
  "notifications (finish_remove el j s) = filter (\<lambda>n. nid n \<noteq> j) (notifications s)"
  "timers (finish_remove el j s) = timers s"
  "rng (finish_remove el j s) = rng s" "rng_ix (finish_remove el j s) = rng_ix s"
  by (simp_all add: finish_remove_eq)

lemma tracked_finish: "tracked i (finish_remove el j s) \<longleftrightarrow> tracked i s \<and> i \<noteq> j"
  by (auto simp: tracked_def finish_fields)

lemma never_again_finish [simp]: "never_again i (finish_remove el j s) = never_again i s"
  by (simp add: never_again_def finish_fields)

lemma never_again_classList_set [simp]: "never_again i (classList_set el b s) = never_again i s"
  by (simp add: never_again_def)

lemma never_again_dequeue [simp]: "never_again i (dequeue t s) = never_again i s"
  by (simp add: never_again_def)

lemma tracked_dequeue [simp]: "tracked i (dequeue t s) = tracked i s"
  by (simp add: tracked_def)

lemma tracked_classList_set [simp]: "tracked i (classList_set el b s) = tracked i s"
  by (simp add: tracked_def)

text \<open>What the firing of a notification timer finds: the timer is a timeout, it is due now.\<close>

lemma toast_timer_fires:
  assumes "inv s" and "earliest (timers s) = Some t" and "toast_timer t"
  shows "timers (dequeue t s) = remove1 t (timers s)" and "now (dequeue t s) = due t"
    and "t \<in> set (timers s)"
proof -
  have h: "heartbeat_ok s" and c: "clock_ok s"
    using assms(1) by (simp_all add: inv_def tinv_def)
  show t: "t \<in> set (timers s)" using assms(2) by (rule earliest_mem)
  have "\<not> repeating t"
    using h t assms(3) unfolding heartbeat_ok_def toast_timer_def by blast
  then show "timers (dequeue t s) = remove1 t (timers s)"
    by (simp add: dequeue_def Let_def)
  have "now s \<le> due t" using c t by (simp add: clock_ok_def)
  then show "now (dequeue t s) = due t" by (simp add: max_def)
qed

lemma on_schedule_timer:
  assumes "inv s" and e: "earliest (timers s) = Some t" and tt: "toast_timer t"
    and "on_schedule i D s"
  shows "on_schedule i D (timer_event c s)"
proof -
  note f = toast_timer_fires [OF assms(1) e tt]
  let ?s1 = "dequeue t s"
  have te: "timer_event c s = fire c (action t) ?s1"
    using e by (simp add: timer_event_def)
  have other: "w \<in> set (timers ?s1)" if "w \<in> set (timers s)" "w \<noteq> t" for w
    using that by (simp add: f(1))
  show ?thesis
  proof (cases "action t")
    case (ToastReveal el)
    have "\<exists>w\<in>set (timers ?s1). removal_due i D w" if tr: "tracked i s"
    proof -
      obtain w where w: "w \<in> set (timers s)" "removal_due i D w"
        using assms(4) tr unfolding on_schedule_def by blast
      then have "w \<noteq> t" using ToastReveal by (auto simp: removal_due_def)
      then show ?thesis using w other by blast
    qed
    then show ?thesis
      unfolding te ToastReveal on_schedule_def by (simp add: fire_def)
  next
    case (AutoRemove j)
    have "\<exists>w\<in>set (timers (remove_notification j ?s1)). removal_due i D w" if tr: "tracked i s"
    proof -
      obtain w where w: "w \<in> set (timers s)" "removal_due i D w"
        using assms(4) tr unfolding on_schedule_def by blast
      show ?thesis
      proof (cases "w = t")
        case False
        then have "w \<in> set (timers (remove_notification j ?s1))"
          using w(1) other by (simp add: remove_timers)
        then show ?thesis using w(2) by blast
      next
        case True
        then have j: "j = i" and d: "due t + 300 \<le> D"
          using w(2) AutoRemove by (simp_all add: removal_due_def)
        have "find (\<lambda>n. nid n = i) (notifications ?s1) \<noteq> None"
          using tr by (auto simp: tracked_def find_None_iff)
        then obtain n where n: "find (\<lambda>n. nid n = i) (notifications ?s1) = Some n" by blast
        let ?w = "\<lparr>timer_id = next_timer ?s1, due = now ?s1 + 300, delay = 300,
                   action = FinishRemove (element n) i, repeating = False\<rparr>"
        have "?w \<in> set (timers (remove_notification j ?s1))"
          using n j by (simp add: remove_timers)
        moreover have "removal_due i D ?w"
          using d f(2) by (simp add: removal_due_def)
        ultimately show ?thesis by blast
      qed
    qed
    then show ?thesis
      unfolding te AutoRemove on_schedule_def by (simp add: fire_def)
  next
    case (FinishRemove el j)
    have "\<exists>w\<in>set (timers (finish_remove el j ?s1)). removal_due i D w"
      if tr: "tracked i s" "i \<noteq> j"
    proof -
      obtain w where w: "w \<in> set (timers s)" "removal_due i D w"
        using assms(4) tr(1) unfolding on_schedule_def by blast
      then have "w \<noteq> t" using FinishRemove tr(2) by (auto simp: removal_due_def)
      then show ?thesis using w other by (auto simp: finish_fields(2))
    qed
    then show ?thesis
      unfolding te FinishRemove on_schedule_def by (simp add: fire_def tracked_finish)
  next
    case Reconnect
    then show ?thesis using tt by (simp add: toast_timer_def)
  next
    case Heartbeat
    then show ?thesis using tt by (simp add: toast_timer_def)
  qed
qed

lemma never_again_timer:
  assumes "earliest (timers s) = Some t" and "toast_timer t"
  shows "never_again i (timer_event c s) = never_again i s"
  using assms by (cases "action t") (simp_all add: timer_event_def fire_def toast_timer_def)

lemma kept_timer:
  assumes "inv s" and e: "earliest (timers s) = Some t" and tt: "toast_timer t"
    and tr: "tracked i s" and un: "unscheduled i s"
  shows "tracked i (timer_event c s) \<and> unscheduled i (timer_event c s)"
proof -
  note f = toast_timer_fires [OF assms(1) e tt]
  let ?s1 = "dequeue t s"
  have te: "timer_event c s = fire c (action t) ?s1"
    using e by (simp add: timer_event_def)
  have nr: "\<not> removal_of i t" using un f(3) unfolding unscheduled_def by blast
  have u1: "unscheduled i ?s1"
    unfolding unscheduled_def f(1)
    using un unfolding unscheduled_def by (meson notin_set_remove1)
  show ?thesis
  proof (cases "action t")
    case (ToastReveal el)
    have "unscheduled i (classList_set el True ?s1)"
      using u1 by (simp add: unscheduled_def)
    then show ?thesis unfolding te ToastReveal using tr by (simp add: fire_def)
  next
    case (AutoRemove j)
    then have "j \<noteq> i" using nr by (simp add: removal_of_def)
    then have "unscheduled i (remove_notification j ?s1)"
      using u1 by (rule unscheduled_remove)
    then show ?thesis unfolding te AutoRemove using tr by (simp add: fire_def)
  next
    case (FinishRemove el j)
    then have "j \<noteq> i" using nr by (simp add: removal_of_def)
    moreover have "unscheduled i (finish_remove el j ?s1)"
      using u1 by (simp add: unscheduled_def finish_fields(2))
    ultimately show ?thesis
      unfolding te FinishRemove using tr by (auto simp: fire_def tracked_finish)
  next
    case Reconnect
    then show ?thesis using tt by (simp add: toast_timer_def)
  next
    case Heartbeat
    then show ?thesis using tt by (simp add: toast_timer_def)
  qed
qed

lemma on_schedule_step:
  assumes "inv s" and "never_again i s" and "on_schedule i D s"
  shows "on_schedule i D (step e s) \<and> never_again i (step e s)"
proof -
  consider (shown) m ty d where "e = Show m ty d" | (dismiss) j where "e = Dismiss j"
    | (clear) "e = Clear"
    | (timer) c t where "e = Timer c" "earliest (timers s) = Some t" "toast_timer t"
    | (other) "\<And>m ty d. e \<noteq> Show m ty d" "\<And>i. e \<noteq> Dismiss i" "e \<noteq> Clear"
        "\<And>c t. e = Timer c \<Longrightarrow> earliest (timers s) = Some t \<Longrightarrow> \<not> toast_timer t"
    by (cases e) blast+
  then show ?thesis
  proof cases
    case shown
    then show ?thesis using assms by (simp add: on_schedule_show never_again_show)
  next
    case dismiss
    then show ?thesis using assms by (simp add: on_schedule_remove)
  next
    case clear
    then show ?thesis using assms by (simp add: clear_schedule)
  next
    case timer
    then show ?thesis
      using assms on_schedule_timer [OF assms(1) timer(2,3) assms(3)] never_again_timer [OF timer(2,3)]
      by simp
  next
    case other
    then have "toast_path s (step e s)" using assms(1) by (intro step_toast_path)
    then show ?thesis using assms(2,3) by (rule on_schedule_path)
  qed
qed

lemma on_schedule_run:
  assumes "inv s" and "never_again i s" and "on_schedule i D s"
  shows "on_schedule i D (run evs s)"
  using assms unfolding run_def
proof (induction evs arbitrary: s)
  case Nil
  then show ?case by simp
next
  case (Cons e evs)
  have "inv (step e s)" using Cons.prems(1) by (rule inv_step)
  moreover have "on_schedule i D (step e s) \<and> never_again i (step e s)"
    using Cons.prems by (rule on_schedule_step)
  ultimately show ?case using Cons.IH by simp
qed

lemma removed_after_deadline:
  assumes "inv s" and "never_again i s" and "on_schedule i D s" and "D < now (run evs s)"
  shows "\<not> tracked i (run evs s)"
proof
  assume "tracked i (run evs s)"
  moreover have "on_schedule i D (run evs s)" using assms(1-3) by (rule on_schedule_run)
  ultimately obtain w where w: "w \<in> set (timers (run evs s))" "removal_due i D w"
    unfolding on_schedule_def by blast
  have "inv (run evs s)" using assms(1) by (rule inv_run)
  then have "now (run evs s) \<le> due w"
    using w(1) by (simp add: inv_def tinv_def clock_ok_def)
  moreover have "due w \<le> D"
    using w(2) by (auto simp: removal_due_def split: action.splits)
  ultimately show False using assms(4) by simp
qed

lemma kept_step:
  assumes "inv s" and "never_again i s" and "tracked i s" and "unscheduled i s"
    and "e \<noteq> Dismiss i" and "e \<noteq> Clear"
  shows "tracked i (step e s) \<and> unscheduled i (step e s) \<and> never_again i (step e s)"
proof -
  consider (shown) m ty d where "e = Show m ty d" | (dismiss) j where "e = Dismiss j"
    | (clear) "e = Clear"
    | (timer) c t where "e = Timer c" "earliest (timers s) = Some t" "toast_timer t"
    | (other) "\<And>m ty d. e \<noteq> Show m ty d" "\<And>i. e \<noteq> Dismiss i" "e \<noteq> Clear"
        "\<And>c t. e = Timer c \<Longrightarrow> earliest (timers s) = Some t \<Longrightarrow> \<not> toast_timer t"
    by (cases e) blast+
  then show ?thesis
  proof cases
    case shown
    then show ?thesis using assms by (simp add: tracked_show unscheduled_show never_again_show)
  next
    case dismiss
    then have "j \<noteq> i" using assms(5) by simp
    then show ?thesis using assms dismiss by (simp add: unscheduled_remove)
  next
    case clear
    then show ?thesis using assms(6) by simp
  next
    case timer
    then show ?thesis
      using assms kept_timer [OF assms(1) timer(2,3) assms(3,4)] never_again_timer [OF timer(2,3)]
      by simp
  next
    case other
    then have "toast_path s (step e s)" using assms(1) by (intro step_toast_path)
    then show ?thesis using assms(2,3,4) by (rule kept_path)
  qed
qed

lemma kept_run:
  assumes "inv s" and "never_again i s" and "tracked i s" and "unscheduled i s"
    and "Dismiss i \<notin> set evs" and "Clear \<notin> set evs"
  shows "tracked i (run evs s)"
  using assms unfolding run_def
proof (induction evs arbitrary: s)
  case Nil
  then show ?case by simp
next
  case (Cons e evs)
  have "inv (step e s)" using Cons.prems(1) by (rule inv_step)
  moreover have "tracked i (step e s) \<and> unscheduled i (step e s) \<and> never_again i (step e s)"
    using Cons.prems by (intro kept_step) auto
  ultimately show ?case using Cons.IH Cons.prems(5,6) by simp
qed

subsection \<open>Identifiers not yet drawn are unused\<close>

lemma unused_same: "same_toasts s s' \<Longrightarrow> unused i s \<Longrightarrow> unused i s'"
  unfolding unused_def using tracked_same unscheduled_same by blast

lemma unused_show:
  assumes "i \<noteq> rng s (rng_ix s)" and "unused i s"
  shows "unused i (snd (show_notification m ty d s))"
proof -
  have "\<not> tracked i (snd (show_notification m ty d s))"
    using assms by (auto simp: unused_def tracked_def show_fields)
  moreover have "unscheduled i (snd (show_notification m ty d s))"
    using assms unfolding unused_def unscheduled_def
    by (auto simp: show_fields show_timers_def removal_of_def split: if_splits)
  ultimately show ?thesis by (simp add: unused_def)
qed

lemma unused_remove: "unused i s \<Longrightarrow> unused i (remove_notification j s)"
proof (cases "j = i")
  case True
  assume "unused i s"
  then show ?thesis using True by (simp add: unused_def remove_untracked)
next
  case False
  assume "unused i s"
  then show ?thesis using False by (simp add: unused_def unscheduled_remove)
qed

lemma unused_clear: "unused i s \<Longrightarrow> unused i (clear_notifications s)"
proof -
  have "unused i s \<Longrightarrow> unused i (foldl (\<lambda>s n. remove_notification (nid n) s) s ns)"
    for ns :: "notification list"
    by (induction ns arbitrary: s) (simp_all add: unused_remove)
  then show "unused i s \<Longrightarrow> unused i (clear_notifications s)"
    by (simp add: clear_notifications_def)
qed

lemma unused_timer:
  assumes "inv s" and e: "earliest (timers s) = Some t" and tt: "toast_timer t" and "unused i s"
  shows "unused i (timer_event c s)"
proof -
  have tm: "timers (dequeue t s) = remove1 t (timers s)"
    using toast_timer_fires(1) [OF assms(1) e tt] .
  have "unscheduled i (dequeue t s)"
    using assms(4) unfolding unused_def unscheduled_def tm
    by (meson notin_set_remove1)
  then have u: "unused i (dequeue t s)"
    using assms(4) by (simp add: unused_def)
  have te: "timer_event c s = fire c (action t) (dequeue t s)"
    using e by (simp add: timer_event_def)
  show ?thesis
  proof (cases "action t")
    case (ToastReveal el)
    have "timers (classList_set el True (dequeue t s)) = timers (dequeue t s)"
      by (simp add: classList_set_def split: option.splits)
    then have "unused i (classList_set el True (dequeue t s))"
      using u by (simp add: unused_def unscheduled_def)
    then show ?thesis using te ToastReveal by (simp add: fire_def)
  next
    case (AutoRemove j)
    then show ?thesis using te u by (simp add: fire_def unused_remove)
  next
    case (FinishRemove el j)
    have "unused i (finish_remove el j (dequeue t s))"
      using u by (simp add: unused_def unscheduled_def tracked_finish finish_fields)
    then show ?thesis using te FinishRemove by (simp add: fire_def)
  next
    case Reconnect
    then show ?thesis using tt by (simp add: toast_timer_def)
  next
    case Heartbeat
    then show ?thesis using tt by (simp add: toast_timer_def)
  qed
qed

lemma rng_timer:
  assumes "earliest (timers s) = Some t" and "toast_timer t"
  shows "rng (timer_event c s) = rng s \<and> rng_ix (timer_event c s) = rng_ix s"
  using assms
  by (cases "action t")
     (simp_all add: timer_event_def fire_def toast_timer_def remove_fields finish_fields
        classList_set_def split: option.splits)

lemma fresh_path:
  assumes "toast_path s s'" and "inj (rng s)" and "fresh_ids s"
  shows "fresh_ids s' \<and> rng s' = rng s"
proof -
  have same: "fresh_ids u \<and> rng u = rng s" if "same_toasts s u" for u
  proof -
    have "rng u = rng s" "rng_ix u = rng_ix s"
      using that by (simp_all add: same_toasts_def)
    then show ?thesis
      using assms(3) unused_same [OF that] by (simp add: fresh_ids_def)
  qed
  from assms(1) consider "same_toasts s s'"
    | s1 m ty d where "same_toasts s s1" "s' = snd (show_notification m ty d s1)"
    unfolding toast_path_def by blast
  then show ?thesis
  proof cases
    case 1
    then show ?thesis by (rule same)
  next
    case 2
    have f1: "fresh_ids s1" and r1: "rng s1 = rng s"
      using same [OF 2(1)] by simp_all
    have "unused (rng s1 k) s'" if "Suc (rng_ix s1) \<le> k" for k
    proof -
      have "rng s1 k \<noteq> rng s1 (rng_ix s1)"
        using that assms(2) r1 by (auto dest: injD)
      moreover have "unused (rng s1 k) s1"
        using f1 that by (simp add: fresh_ids_def)
      ultimately show ?thesis unfolding 2(2) by (rule unused_show)
    qed
    then show ?thesis
      using r1 by (simp add: fresh_ids_def 2(2) show_fields)
  qed
qed

lemma fresh_step:
  assumes "inv s" and "inj (rng s)" and "fresh_ids s"
  shows "fresh_ids (step e s) \<and> rng (step e s) = rng s"
proof -
  consider (shown) m ty d where "e = Show m ty d" | (dismiss) j where "e = Dismiss j"
    | (clear) "e = Clear"
    | (timer) c t where "e = Timer c" "earliest (timers s) = Some t" "toast_timer t"
    | (other) "\<And>m ty d. e \<noteq> Show m ty d" "\<And>i. e \<noteq> Dismiss i" "e \<noteq> Clear"
        "\<And>c t. e = Timer c \<Longrightarrow> earliest (timers s) = Some t \<Longrightarrow> \<not> toast_timer t"
    by (cases e) blast+
  then show ?thesis
  proof cases
    case shown
    have "toast_path s (step e s)"
      unfolding shown step.simps by (rule toast_path_show) (rule same_toasts_refl)
    then show ?thesis using assms(2,3) by (rule fresh_path)
  next
    case dismiss
    then show ?thesis
      using assms(3) by (simp add: fresh_ids_def remove_fields unused_remove)
  next
    case clear
    have "rng (foldl (\<lambda>s n. remove_notification (nid n) s) s ns) = rng s
        \<and> rng_ix (foldl (\<lambda>s n. remove_notification (nid n) s) s ns) = rng_ix s"
      for ns :: "notification list"
      by (induction ns arbitrary: s) (simp_all add: remove_fields)
    then have "rng (clear_notifications s) = rng s" "rng_ix (clear_notifications s) = rng_ix s"
      by (simp_all add: clear_notifications_def)
    then show ?thesis
      using assms(3) clear by (simp add: fresh_ids_def unused_clear)
  next
    case timer
    have "rng (timer_event c s) = rng s" "rng_ix (timer_event c s) = rng_ix s"
      using rng_timer [OF timer(2,3)] by simp_all
    then show ?thesis
      using assms(3) timer(1) unused_timer [OF assms(1) timer(2,3)] by (simp add: fresh_ids_def)
  next
    case other
    then have "toast_path s (step e s)" using assms(1) by (intro step_toast_path)
    then show ?thesis using assms(2,3) by (rule fresh_path)
  qed
qed

lemma fresh_run:
  assumes "inv s" and "inj (rng s)" and "fresh_ids s"
  shows "fresh_ids (run evs s) \<and> rng (run evs s) = rng s"
  using assms unfolding run_def
proof (induction evs arbitrary: s)
  case Nil
  then show ?case by simp
next
  case (Cons e evs)
  have 1: "inv (step e s)" using Cons.prems(1) by (rule inv_step)
  have 2: "fresh_ids (step e s)" "rng (step e s) = rng s"
    using fresh_step [OF Cons.prems] by simp_all
  have 3: "inj (rng (step e s))" using Cons.prems(2) 2(2) by simp
  show ?case using Cons.IH [OF 1 3 2(1)] 2(2) by simp
qed

lemma fresh_initial: "fresh_ids (initial r)"
  by (simp add: fresh_ids_def unused_def tracked_def unscheduled_def initial_def)

lemma inj_ids: "inj ids"
  by (rule injI) (simp add: ids_def)

lemma lost_fields:
  "notifications lost = [\<lparr>nid = ''id'', element = 0\<rparr>]" "now lost = 0"
  "timers lost = [\<lparr>timer_id = 1, due = 100, delay = 100, action = ToastReveal 0, repeating = False\<rparr>]"
  by (simp_all add: lost_def show_notification_eq show_timers_def initial_def ids_def)

lemmas run_defs = run_def timer_event_def dequeue_def fire_def elapse_def classList_set_def
  remove_notification_eq finish_remove_eq

lemma run_saved:
  "now (run [Timer True, Timer True, Timer True, Elapse 2] saved) = 5302"
  by (simp add: run_defs saved_fields)

lemma run_lost:
  "now (run [Timer True, Elapse 100000] lost) = 100100"
  by (simp add: run_defs lost_fields)


text \<open>
  Claim C6. Identifiers are taken to be unique (the random source yields no identifier
  twice), and the page is in any state it can reach from its start. A notification is
  tracked as soon as \<open>show\<close> returns. When its duration \<open>d\<close> is positive, \<open>show\<close> registers its
  removal, \<open>d\<close> ms ahead (as \<open>setTimeout\<close> reads \<open>d\<close>: never later), and whatever happens on the
  page, once the clock has passed the time of creation by more than \<open>d + 300\<close> ms the
  notification is not tracked any more. When \<open>d\<close> is zero or negative, \<open>show\<close> registers the
  reveal timer and nothing else, and the notification stays tracked for as long as nobody
  calls \<open>remove\<close> on its id or \<open>clear\<close>.
\<close>

theorem notification_lifetime:
  assumes "inj r" and "s = run past (initial r)"
  shows "tracked (fst (show_notification m ty d s)) (snd (show_notification m ty d s))
    \<and> (0 < d \<longrightarrow>
         (\<exists>t\<in>set (timers (snd (show_notification m ty d s))).
             action t = AutoRemove (fst (show_notification m ty d s)) \<and>
             due t = now s + timeout_of d \<and> delay t = timeout_of d)
         \<and> timeout_of d \<le> nat d
         \<and> (d < 2 ^ 31 \<longrightarrow> timeout_of d = nat d)
         \<and> (\<forall>evs. now s + nat d + 300 < now (run evs (snd (show_notification m ty d s))) \<longrightarrow>
               \<not> tracked (fst (show_notification m ty d s))
                   (run evs (snd (show_notification m ty d s)))))
    \<and> (d \<le> 0 \<longrightarrow>
         timers (snd (show_notification m ty d s))
           = timers s @ [\<lparr>timer_id = next_timer s, due = now s + 100, delay = 100,
                           action = ToastReveal (next_element s), repeating = False\<rparr>]
         \<and> (\<forall>evs. Dismiss (fst (show_notification m ty d s)) \<notin> set evs \<and> Clear \<notin> set evs \<longrightarrow>
               tracked (fst (show_notification m ty d s))
                 (run evs (snd (show_notification m ty d s)))))"
proof -
  let ?i = "fst (show_notification m ty d s)" and ?s1 = "snd (show_notification m ty d s)"
  have inv0: "inv s"
    unfolding assms(2) using inv_initial by (rule inv_run)
  have "inj (rng (initial r))" using assms(1) by (simp add: initial_def)
  then have fr: "fresh_ids s" and rs: "rng s = r"
    using fresh_run [OF inv_initial _ fresh_initial, of r past]
    by (simp_all add: assms(2) initial_def)
  have i: "?i = rng s (rng_ix s)" by (simp add: show_fields)
  have un: "unscheduled ?i s"
    using fr by (simp add: fresh_ids_def unused_def i)
  have inv1: "inv ?s1"
    using inv0 tinv_quiet quiet_show dom_ok_show unfolding inv_def by blast
  have "rng s k \<noteq> rng s (rng_ix s)" if "Suc (rng_ix s) \<le> k" for k
    using that assms(1) rs by (auto dest: injD)
  then have na: "never_again ?i ?s1"
    by (simp add: never_again_def show_fields)
  have tr: "tracked ?i ?s1"
    by (simp add: tracked_def show_fields)
  have pos: "(\<exists>t\<in>set (timers ?s1). action t = AutoRemove ?i \<and> due t = now s + timeout_of d
                \<and> delay t = timeout_of d)
         \<and> timeout_of d \<le> nat d
         \<and> (d < 2 ^ 31 \<longrightarrow> timeout_of d = nat d)
         \<and> (\<forall>evs. now s + nat d + 300 < now (run evs ?s1) \<longrightarrow> \<not> tracked ?i (run evs ?s1))"
    if d: "0 < d"
  proof -
    let ?t = "\<lparr>timer_id = Suc (next_timer s), due = now s + timeout_of d, delay = timeout_of d,
               action = AutoRemove ?i, repeating = False\<rparr>"
    have t: "?t \<in> set (timers ?s1)"
      using d by (simp add: show_fields show_timers_def)
    have le: "timeout_of d \<le> nat d"
      using d by (intro timeout_of_le) simp
    have eq: "d < 2 ^ 31 \<longrightarrow> timeout_of d = nat d"
      using d timeout_of_small [of d] by simp
    have "removal_due ?i (now s + nat d + 300) ?t"
      using le by (simp add: removal_due_def)
    then have "on_schedule ?i (now s + nat d + 300) ?s1"
      unfolding on_schedule_def using t by blast
    then have "\<forall>evs. now s + nat d + 300 < now (run evs ?s1) \<longrightarrow> \<not> tracked ?i (run evs ?s1)"
      using removed_after_deadline [OF inv1 na] by blast
    moreover have "action ?t = AutoRemove ?i \<and> due ?t = now s + timeout_of d \<and> delay ?t = timeout_of d"
      by simp
    ultimately show ?thesis using t le eq by blast
  qed
  have tm0: "timers ?s1 = timers s @ [\<lparr>timer_id = next_timer s, due = now s + 100, delay = 100,
                           action = ToastReveal (next_element s), repeating = False\<rparr>]"
    if "d \<le> 0"
    using that by (simp add: show_fields show_timers_def)
  have keep: "\<forall>evs. Dismiss ?i \<notin> set evs \<and> Clear \<notin> set evs \<longrightarrow> tracked ?i (run evs ?s1)"
    if d: "d \<le> 0"
  proof -
    have "unscheduled ?i ?s1"
      using un unfolding unscheduled_def tm0 [OF d] by (simp add: removal_of_def)
    then show ?thesis using kept_run [OF inv1 na tr] by blast
  qed
  show ?thesis using tr pos tm0 keep by blast
qed

theorem notification_lifetime_witness:
  "inj ids
   \<and> tracked ''id'' saved
   \<and> now (initial ids) + nat 5000 + 300 < now (run [Timer True, Timer True, Timer True, Elapse 2] saved)
   \<and> \<not> tracked ''id'' (run [Timer True, Timer True, Timer True, Elapse 2] saved)
   \<and> Dismiss ''id'' \<notin> set [Timer True, Elapse 100000]
   \<and> Clear \<notin> set [Timer True, Elapse 100000]
   \<and> now (run [Timer True, Elapse 100000] lost) = 100100
   \<and> tracked ''id'' (run [Timer True, Elapse 100000] lost)"
proof -
  have i: "fst (show_notification m ty d (initial ids)) = ''id''" for m ty d
    by (simp add: show_fields initial_def ids_def)
  have n: "now (initial ids) = 0" by (simp add: initial_def)
  show ?thesis
    using notification_lifetime [where past = "[]" and m = "''Saved''" and ty = "''success''"
          and d = 5000, OF inj_ids refl]
      notification_lifetime [where past = "[]" and m = "''Connection lost''" and ty = "''danger''"
          and d = 0, OF inj_ids refl]
    unfolding run_def [of "[]"] fold_simps id_apply i saved_def [symmetric] lost_def [symmetric]
    by (simp add: inj_ids run_saved run_lost n)
qed

section \<open>Properties of the media manager\<close>

lemma show_media [simp]:
  "selectedFiles (snd (show_notification m ty d s)) = selectedFiles s"
  "previews (snd (show_notification m ty d s)) = previews s"
  "posts (snd (show_notification m ty d s)) = posts s"
  "cards (snd (show_notification m ty d s)) = cards s"
  by (simp_all add: show_notification_eq)

lemma show_notifications:
  "notifications (snd (show_notification m ty d s))
     = notifications s @ [\<lparr>nid = rng s (rng_ix s), element = next_element s\<rparr>]"
  "elements (snd (show_notification m ty d s)) (next_element s)
     = Some \<lparr>data_id = rng s (rng_ix s), severity = ty, body = sanitizeHTML m, show_class = False\<rparr>"
  by (simp_all add: show_notification_eq)

lemma validateFile_fst: "fst (validateFile f s) = valid_file f"
  by (simp add: validateFile_def valid_file_def Let_def)

lemma validateFile_valid: "valid_file f \<Longrightarrow> validateFile f s = (True, s)"
  by (simp add: validateFile_def valid_file_def Let_def)

lemma validateFile_media [simp]:
  "selectedFiles (snd (validateFile f s)) = selectedFiles s"
  "previews (snd (validateFile f s)) = previews s"
  by (simp_all add: validateFile_def Let_def)

lemma validateFile_invalid:
  assumes "\<not> valid_file f"
  shows "\<exists>m. validateFile f s = (False, snd (show_notification m ''danger'' NOTIFICATION_TIMEOUT s))"
  using assms by (auto simp: validateFile_def valid_file_def Let_def)

lemma validateFile_count:
  "length (notifications (snd (validateFile f s)))
     = length (notifications s) + (if valid_file f then 0 else 1)"
proof (cases "valid_file f")
  case True
  then show ?thesis by (simp add: validateFile_valid)
next
  case False
  then obtain m where "validateFile f s = (False, snd (show_notification m ''danger'' NOTIFICATION_TIMEOUT s))"
    using validateFile_invalid by blast
  then show ?thesis using False by (simp add: show_notifications)
qed

lemma filter_validateFile_fst: "fst (filter_validateFile fs s) = filter valid_file fs"
proof (induction fs arbitrary: s)
  case Nil
  show ?case by simp
next
  case (Cons f fs)
  have "fst (validateFile f s) = valid_file f" by (rule validateFile_fst)
  then show ?case using Cons.IH [of "snd (validateFile f s)"]
    by (simp add: split_beta)
qed

lemma filter_validateFile_media [simp]:
  "selectedFiles (snd (filter_validateFile fs s)) = selectedFiles s"
  "previews (snd (filter_validateFile fs s)) = previews s"
  by (induction fs arbitrary: s) (simp_all add: split_beta)

lemma filter_validateFile_count:
  "length (notifications (snd (filter_validateFile fs s)))
     = length (notifications s) + length (filter (\<lambda>f. \<not> valid_file f) fs)"
proof (induction fs arbitrary: s)
  case Nil
  show ?case by simp
next
  case (Cons f fs)
  show ?case
    using Cons.IH [of "snd (validateFile f s)"] validateFile_count [of f s]
    by (simp add: split_beta)
qed

lemma push_all:
  "selectedFiles (foldl (\<lambda>s f. createPreview f (s\<lparr>selectedFiles := selectedFiles s @ [f]\<rparr>)) s vs)
     = selectedFiles s @ vs"
  by (induction vs arbitrary: s) (simp_all add: createPreview_def)

lemma push_all_notifications:
  "notifications (foldl (\<lambda>s f. createPreview f (s\<lparr>selectedFiles := selectedFiles s @ [f]\<rparr>)) s vs)
     = notifications s"
  by (induction vs arbitrary: s) (simp_all add: createPreview_def)

text \<open>Whether \<open>processFiles\<close> admits a batch: some file is valid and the cap is kept.\<close>

lemma processFiles_selected:
  "selectedFiles (processFiles files s) =
     (if filter valid_file files \<noteq> [] \<and>
         length (selectedFiles s) + length (filter valid_file files) \<le> maxFiles
      then selectedFiles s @ filter valid_file files
      else selectedFiles s)"
proof -
  obtain vs s1 where r: "filter_validateFile files s = (vs, s1)" by (cases "filter_validateFile files s")
  have vs: "vs = filter valid_file files"
    using filter_validateFile_fst [of files s] r by simp
  have s1: "selectedFiles s1 = selectedFiles s"
    using filter_validateFile_media(1) [of files s] r by simp
  show ?thesis
    unfolding processFiles_def r using vs s1
    by (simp add: push_all)
qed

lemma processFiles_count:
  "length (notifications (processFiles files s)) =
     length (notifications s) + length (filter (\<lambda>f. \<not> valid_file f) files) +
     (if filter valid_file files \<noteq> [] \<and>
         length (selectedFiles s) + length (filter valid_file files) \<le> maxFiles
      then 0 else 1)"
proof -
  obtain vs s1 where r: "filter_validateFile files s = (vs, s1)" by (cases "filter_validateFile files s")
  have vs: "vs = filter valid_file files"
    using filter_validateFile_fst [of files s] r by simp
  have s1: "selectedFiles s1 = selectedFiles s"
    using filter_validateFile_media(1) [of files s] r by simp
  have n1: "length (notifications s1)
      = length (notifications s) + length (filter (\<lambda>f. \<not> valid_file f) files)"
    using filter_validateFile_count [of files s] r by simp
  show ?thesis
    unfolding processFiles_def r using vs s1 n1
    by (simp add: push_all_notifications show_notifications)
qed


lemma processFiles_rejected:
  assumes "\<not> (filter valid_file files \<noteq> [] \<and>
         length (selectedFiles s) + length (filter valid_file files) \<le> maxFiles)"
  shows "\<exists>m. processFiles files s
           = snd (show_notification m ''warning'' NOTIFICATION_TIMEOUT
                    (snd (filter_validateFile files s)))"
proof -
  obtain vs s1 where r: "filter_validateFile files s = (vs, s1)" by (cases "filter_validateFile files s")
  have vs: "vs = filter valid_file files"
    using filter_validateFile_fst [of files s] r by simp
  have s1: "selectedFiles s1 = selectedFiles s"
    using filter_validateFile_media(1) [of files s] r by simp
  show ?thesis
    unfolding processFiles_def r using vs s1 assms
    by auto
qed

lemma removeFile_selected:
  "selectedFiles (removeFile engine fileName s)
     = filter (\<lambda>f. file_name f \<noteq> fileName) (selectedFiles s)"
  by (simp add: removeFile_def Let_def split: sum.splits option.splits)

text \<open>\<open>clearAll\<close> empties the selection, unless the look-up of a preview throws: then it
  ends there and the selection is as it was.\<close>

lemma clearAll_selected:
  "selectedFiles (clearAll engine s)
     = (if revoke_all engine (selectedFiles s) s = None then [] else selectedFiles s)"
  by (simp add: clearAll_def split: option.splits)

lemma revoke_all_plain:
  "\<forall>f\<in>set fs. plain_name (file_name f) \<Longrightarrow> revoke_all engine fs s = None"
  by (induction fs) (simp_all add: querySelector_def)

lemma media_step_capped:
  assumes "length (selectedFiles s) \<le> maxFiles"
  shows "length (selectedFiles (media_step engine op s)) \<le> maxFiles"
proof (cases op)
  case (ProcessFiles files)
  then show ?thesis using assms by (simp add: processFiles_selected)
next
  case (RemoveFile fileName)
  have "length (filter (\<lambda>f. file_name f \<noteq> fileName) (selectedFiles s)) \<le> length (selectedFiles s)"
    by (rule length_filter_le)
  then have "length (filter (\<lambda>f. file_name f \<noteq> fileName) (selectedFiles s)) \<le> maxFiles"
    using assms by (rule order_trans)
  then show ?thesis using RemoveFile by (simp add: removeFile_selected)
next
  case UploadFiles
  then show ?thesis using assms by (simp add: uploadFiles_def)
next
  case ClearAll
  then show ?thesis using assms by (simp add: clearAll_selected)
qed

lemma media_run_capped:
  "length (selectedFiles s) \<le> maxFiles \<Longrightarrow>
   length (selectedFiles (fold (media_step engine) ops s)) \<le> maxFiles"
  by (induction ops arbitrary: s) (simp_all add: media_step_capped)

text \<open>
  Claim C9. A file that is too large or whose extension is not supported is rejected by
  \<open>validateFile\<close> with the media manager's state untouched: the only effect is one
  \<open>danger\<close> notification. \<open>processFiles\<close> appends nothing but valid files of the batch
  to \<open>selectedFiles\<close>, and looks at each file once: it shows one notification for each
  invalid file and at most one warning for the batch.
\<close>

theorem invalid_file_rejected:
  assumes "f \<in> set files" and "\<not> valid_file f"
  shows "fst (validateFile f s) = False
       \<and> selectedFiles (snd (validateFile f s)) = selectedFiles s
       \<and> previews (snd (validateFile f s)) = previews s
       \<and> (\<exists>m. snd (validateFile f s) = snd (show_notification m ''danger'' NOTIFICATION_TIMEOUT s))
       \<and> (\<exists>added. selectedFiles (processFiles files s) = selectedFiles s @ added
              \<and> f \<notin> set added \<and> set added \<subseteq> set files)
       \<and> length (notifications (processFiles files s)) \<le>
           length (notifications s) + length (filter (\<lambda>g. \<not> valid_file g) files) + 1"
proof -
  have 1: "fst (validateFile f s) = False"
    using assms(2) by (simp add: validateFile_fst)
  obtain m where m: "validateFile f s = (False, snd (show_notification m ''danger'' NOTIFICATION_TIMEOUT s))"
    using validateFile_invalid [OF assms(2)] by blast
  then have 2: "\<exists>m. snd (validateFile f s) = snd (show_notification m ''danger'' NOTIFICATION_TIMEOUT s)"
    by auto
  have 3: "\<exists>added. selectedFiles (processFiles files s) = selectedFiles s @ added
              \<and> f \<notin> set added \<and> set added \<subseteq> set files"
  proof (cases "filter valid_file files \<noteq> [] \<and>
         length (selectedFiles s) + length (filter valid_file files) \<le> maxFiles")
    case True
    then have "selectedFiles (processFiles files s) = selectedFiles s @ filter valid_file files"
      by (simp add: processFiles_selected)
    moreover have "f \<notin> set (filter valid_file files)" using assms(2) by simp
    moreover have "set (filter valid_file files) \<subseteq> set files" by auto
    ultimately show ?thesis by blast
  next
    case False
    then have "selectedFiles (processFiles files s) = selectedFiles s @ []"
      by (simp add: processFiles_selected)
    then show ?thesis by (metis empty_iff empty_set empty_subsetI)
  qed
  have 4: "length (notifications (processFiles files s)) \<le>
           length (notifications s) + length (filter (\<lambda>g. \<not> valid_file g) files) + 1"
    by (simp add: processFiles_count)
  show ?thesis using 1 2 3 4 by simp
qed

text \<open>
  Claim C10. \<open>processFiles\<close> admits a batch as a whole or not at all: when the selected
  files and the valid files of the batch together exceed \<open>maxFiles\<close>, no file is added
  and the call ends with a \<open>warning\<close> notification; otherwise all valid files are
  appended. No operation of the media manager takes \<open>selectedFiles\<close> over the cap,
  whatever the selector engine does with the names (\<open>removeFile\<close> filters the list before
  it looks the preview up, \<open>clearAll\<close> empties the list or throws and leaves it as it
  was), so the list never holds more than 10 files.
\<close>

theorem selectedFiles_capped:
  "(length (selectedFiles s) + length (filter valid_file files) > maxFiles \<longrightarrow>
      selectedFiles (processFiles files s) = selectedFiles s
      \<and> (\<exists>m. processFiles files s
             = snd (show_notification m ''warning'' NOTIFICATION_TIMEOUT
                      (snd (filter_validateFile files s)))))
   \<and> (filter valid_file files \<noteq> [] \<and>
      length (selectedFiles s) + length (filter valid_file files) \<le> maxFiles \<longrightarrow>
      selectedFiles (processFiles files s) = selectedFiles s @ filter valid_file files)
   \<and> (length (selectedFiles s) \<le> maxFiles \<longrightarrow>
        length (selectedFiles (media_step engine op s)) \<le> maxFiles)
   \<and> length (selectedFiles (fold (media_step engine) ops (initial r))) \<le> 10
   \<and> selectedFiles (removeFile engine fileName s)
        = filter (\<lambda>f. file_name f \<noteq> fileName) (selectedFiles s)
   \<and> selectedFiles (clearAll engine s)
        = (if revoke_all engine (selectedFiles s) s = None then [] else selectedFiles s)"
proof -
  have "length (selectedFiles (initial r)) \<le> maxFiles"
    by (simp add: initial_def)
  then have "length (selectedFiles (fold (media_step engine) ops (initial r))) \<le> maxFiles"
    by (rule media_run_capped)
  then have 4: "length (selectedFiles (fold (media_step engine) ops (initial r))) \<le> 10"
    by (simp add: maxFiles_def)
  have 1: "selectedFiles (processFiles files s) = selectedFiles s
      \<and> (\<exists>m. processFiles files s
             = snd (show_notification m ''warning'' NOTIFICATION_TIMEOUT
                      (snd (filter_validateFile files s))))"
    if "length (selectedFiles s) + length (filter valid_file files) > maxFiles"
    using that processFiles_rejected [of files s] by (simp add: processFiles_selected)
  have 3: "length (selectedFiles s) \<le> maxFiles \<longrightarrow>
        length (selectedFiles (media_step engine op s)) \<le> maxFiles"
    using media_step_capped [of s engine op] by blast
  have 2: "filter valid_file files \<noteq> [] \<and>
      length (selectedFiles s) + length (filter valid_file files) \<le> maxFiles \<longrightarrow>
      selectedFiles (processFiles files s) = selectedFiles s @ filter valid_file files"
    by (simp add: processFiles_selected)
  show ?thesis
    using 1 2 3 4 removeFile_selected [of engine fileName s] clearAll_selected [of engine s]
    by blast
qed

lemma valid_cat: "valid_file cat"
  by (simp add: valid_file_def cat_def extension_of_def toLowerCase_def MAX_FILE_SIZE_def
        SUPPORTED_FORMATS_def)

lemma invalid_big: "\<not> valid_file big_video"
  by (simp add: valid_file_def big_video_def MAX_FILE_SIZE_def)

lemma invalid_notes: "\<not> valid_file text_notes"
  by (simp add: valid_file_def text_notes_def extension_of_def toLowerCase_def MAX_FILE_SIZE_def
        SUPPORTED_FORMATS_def)

theorem invalid_file_rejected_witness:
  "text_notes \<in> set [big_video, cat, text_notes] \<and> \<not> valid_file text_notes
   \<and> fst (validateFile text_notes (initial ids)) = False
   \<and> selectedFiles (processFiles [big_video, cat, text_notes] (initial ids)) = [cat]
   \<and> length (notifications (processFiles [big_video, cat, text_notes] (initial ids))) \<le> 3"
proof -
  have v: "filter valid_file [big_video, cat, text_notes] = [cat]"
    by (simp add: valid_cat invalid_big invalid_notes)
  have n: "filter (\<lambda>g. \<not> valid_file g) [big_video, cat, text_notes] = [big_video, text_notes]"
    by (simp add: valid_cat invalid_big invalid_notes)
  have h: "text_notes \<in> set [big_video, cat, text_notes]" by simp
  have i: "selectedFiles (initial ids) = []" "notifications (initial ids) = []"
    by (simp_all add: initial_def)
  show ?thesis
    using invalid_file_rejected [OF h invalid_notes, of "initial ids"]
    by (simp add: processFiles_selected v n invalid_notes i maxFiles_def del: filter.simps)
qed

lemma valid_quoted: "valid_file quoted"
  by (simp add: valid_file_def quoted_def extension_of_def toLowerCase_def MAX_FILE_SIZE_def
        SUPPORTED_FORMATS_def)

theorem selectedFiles_capped_witness:
  "length (selectedFiles (processFiles (replicate 6 cat) (initial ids))) +
     length (filter valid_file (replicate 5 cat)) > maxFiles
   \<and> selectedFiles (processFiles (replicate 5 cat) (processFiles (replicate 6 cat) (initial ids)))
       = replicate 6 cat
   \<and> filter valid_file (replicate 4 cat) \<noteq> []
   \<and> selectedFiles (processFiles (replicate 4 cat) (processFiles (replicate 6 cat) (initial ids)))
       = replicate 10 cat
   \<and> length (selectedFiles (processFiles (replicate 6 cat) (initial ids))) \<le> maxFiles
   \<and> length (selectedFiles (media_step strict_engine (RemoveFile ''my.Cat.PNG'')
         (processFiles (replicate 6 cat) (initial ids)))) \<le> maxFiles
   \<and> length (selectedFiles (fold (media_step strict_engine) [ProcessFiles (replicate 6 cat),
         ProcessFiles (replicate 6 cat), ClearAll, ProcessFiles (replicate 11 cat),
         ProcessFiles [quoted], ClearAll] (initial ids))) \<le> 10
   \<and> selectedFiles (clearAll strict_engine (processFiles [quoted] (initial ids))) = [quoted]"
proof -
  have v: "filter valid_file (replicate n cat) = replicate n cat" for n
    by (induction n) (simp_all add: valid_cat)
  have i: "selectedFiles (initial ids) = []"
    by (simp add: initial_def)
  have six: "selectedFiles (processFiles (replicate 6 cat) (initial ids)) = replicate 6 cat"
    by (simp add: processFiles_selected v i maxFiles_def)
  have q: "selectedFiles (processFiles [quoted] (initial ids)) = [quoted]"
    by (simp add: processFiles_selected valid_quoted i maxFiles_def)
  have nq: "\<not> plain_name (file_name quoted)"
    by (simp add: plain_name_def quoted_def)
  have rq: "querySelector strict_engine (file_name quoted) st = Inl SyntaxError" for st
    using nq by (simp add: querySelector_def strict_engine_def)
  have r: "replicate 6 cat @ replicate 4 cat = replicate 10 cat"
    by (simp add: replicate_add [symmetric])
  show ?thesis
    using selectedFiles_capped [of "processFiles (replicate 6 cat) (initial ids)"
        "replicate 5 cat" strict_engine "RemoveFile ''my.Cat.PNG''"
        "[ProcessFiles (replicate 6 cat), ProcessFiles (replicate 6 cat), ClearAll,
          ProcessFiles (replicate 11 cat), ProcessFiles [quoted], ClearAll]" ids "''x''"]
      selectedFiles_capped [of "processFiles (replicate 6 cat) (initial ids)"
        "replicate 4 cat" strict_engine "RemoveFile ''my.Cat.PNG''" "[]" ids "''x''"]
      selectedFiles_capped [of "processFiles [quoted] (initial ids)"
        "[]" strict_engine ClearAll "[]" ids "''x''"]
    by (simp add: six v r q rq maxFiles_def)
qed

end
